theory Spec2Isabelle
  imports Complex_Main "HOL-Library.Char_ord" "HOL-Library.List_Lexorder"
begin

section \<open>Python values and the library functions the program calls\<close>

text \<open>
  The indexer (\<^verbatim>\<open>bw_indexer.py\<close>) and the search API (\<^verbatim>\<open>bw_api.py\<close>) work on
  JSON documents decoded by \<^verbatim>\<open>json.loads\<close>. A Python \<^verbatim>\<open>str\<close> is a list of
  code points; the type \<open>string\<close> holds the code points below 256 (the Latin-1
  range), and \<^verbatim>\<open>strip\<close>, \<^verbatim>\<open>isdigit\<close> and \<^verbatim>\<open>lower\<close> are those of Python on that
  range. Strings with other code points have no counterpart here. A Redis key
  is the \<^verbatim>\<open>str\<close> it is encoded from: \<^verbatim>\<open>encode\<close> is one-to-one and keeps the
  order of the code points.
\<close>

subsection \<open>Floats\<close>

text \<open>
  A Python \<^verbatim>\<open>float\<close> is an IEEE 754 double: a finite value (a rational), one
  of the two infinities, or NaN. The values other than NaN are the scores of a
  Redis sorted set, in their order. The two zeros are one value.
\<close>

datatype score = NInf | Fin rat | PInf

fun score_le :: "score \<Rightarrow> score \<Rightarrow> bool" where
  "score_le NInf y = True"
| "score_le (Fin a) NInf = False"
| "score_le (Fin a) (Fin b) = (a \<le> b)"
| "score_le (Fin a) PInf = True"
| "score_le PInf NInf = False"
| "score_le PInf (Fin b) = False"
| "score_le PInf PInf = True"

instantiation score :: linorder
begin

definition less_eq_score :: "score \<Rightarrow> score \<Rightarrow> bool" where
  "less_eq_score x y = score_le x y"

definition less_score :: "score \<Rightarrow> score \<Rightarrow> bool" where
  "less_score x y = (score_le x y \<and> \<not> score_le y x)"

instance
proof
  fix x y z :: score
  show "(x < y) = (x \<le> y \<and> \<not> y \<le> x)"
    by (simp add: less_eq_score_def less_score_def)
  show "x \<le> x"
    by (cases x) (simp_all add: less_eq_score_def)
  show "x \<le> y \<Longrightarrow> y \<le> z \<Longrightarrow> x \<le> z"
    by (cases x; cases y; cases z) (simp_all add: less_eq_score_def)
  show "x \<le> y \<Longrightarrow> y \<le> x \<Longrightarrow> x = y"
    by (cases x; cases y) (simp_all add: less_eq_score_def)
  show "x \<le> y \<or> y \<le> x"
    by (cases x; cases y) (auto simp: less_eq_score_def)
qed

end

datatype pyfloat = NaN | Num score

text \<open>
  Rounding to the nearest double, ties to the even significand: 53 bits, the
  exponent of the last bit not below \<open>-1074\<close>, and infinity from \<open>2^1024\<close> on.
  This is what \<^verbatim>\<open>float\<close> does to a decimal numeral or an integer and what
  the division of two floats does to the exact quotient.
\<close>

function bitlen :: "int \<Rightarrow> nat" where
  "bitlen n = (if n \<le> 0 then 0 else Suc (bitlen (n div 2)))"
  by pat_completeness auto
termination
  by (relation "measure nat") auto

declare bitlen.simps [simp del]

definition pow2 :: "int \<Rightarrow> rat" where
  "pow2 e = (if 0 \<le> e then 2 ^ nat e else 1 / 2 ^ nat (- e))"

text \<open>For \<open>r > 0\<close>, the exponent \<open>e\<close> with \<open>2^e \<le> r < 2^(e+1)\<close>.\<close>

definition ilog2 :: "rat \<Rightarrow> int" where
  "ilog2 r =
     (let (a, b) = quotient_of r;
          k = int (bitlen a) - int (bitlen b)
      in if pow2 k \<le> r then k else k - 1)"

definition round_half_even :: "rat \<Rightarrow> int" where
  "round_half_even r =
     (let f = \<lfloor>r\<rfloor>; d = r - of_int f
      in if d < 1 / 2 then f else if 1 / 2 < d then f + 1 else if even f then f else f + 1)"

definition round_double :: "rat \<Rightarrow> score" where
  "round_double r =
     (if r = 0 then Fin 0
      else (let a = \<bar>r\<bar>;
                e = ilog2 a;
                q = max (e - 52) (- 1074);
                m = round_half_even (a / pow2 q);
                e' = (if 2 ^ 53 \<le> m then e + 1 else e)
            in if 1024 \<le> e' then (if 0 < r then PInf else NInf)
               else Fin (sgn r * (of_int m * pow2 q))))"

text \<open>\<^verbatim>\<open>n / 1000\<close> on a float that is not NaN.\<close>

definition div_1000 :: "score \<Rightarrow> score" where
  "div_1000 n = (case n of NInf \<Rightarrow> NInf | Fin r \<Rightarrow> round_double (r / 1000) | PInf \<Rightarrow> PInf)"

subsection \<open>JSON documents and exceptions\<close>

text \<open>
  A decoded document is a value of \<open>json\<close>; a JSON object is an association
  list in which the first binding of a key is the one \<^verbatim>\<open>dict.get\<close> sees.
\<close>

datatype json =
    JNull
  | JBool bool
  | JInt int
  | JFloat pyfloat
  | JStr string
  | JArr "json list"
  | JObj "(string \<times> json) list"

datatype py_exception =
    ParserError
  | ResponseError
  | JSONDecodeError
  | AttributeError
  | TypeError
  | ValueError
  | OverflowError
  | OSError

text \<open>
  Library code that is not part of the repository is a parameter of the model:
  the JSON decoder (applied to the raw bytes, \<open>None\<close> when it raises),
  \<^verbatim>\<open>float()\<close> on a string that is not a plain decimal numeral, \<^verbatim>\<open>str()\<close> on
  floats, lists and dicts, \<^verbatim>\<open>dateutil.parser.parse\<close> with the datetime
  operations used on its result, and
  \<^verbatim>\<open>datetime.fromtimestamp(ts, tz=TZ).isoformat()\<close> on a timestamp that is
  not NaN. Where the library can raise, the parameter says which exception.
\<close>

record 'dt pylib =
  json_loads :: "string \<Rightarrow> json option"
  float_of_str :: "string \<Rightarrow> pyfloat option"
  repr_of :: "json \<Rightarrow> string"
  dt_parse :: "string \<Rightarrow> py_exception + 'dt"
  dt_naive :: "'dt \<Rightarrow> bool"
  dt_replace_tz :: "'dt \<Rightarrow> 'dt"
  dt_timestamp :: "'dt \<Rightarrow> py_exception + score"
  date_human :: "score \<Rightarrow> py_exception + string"

subsection \<open>dict.get, truthiness, str()\<close>

definition get :: "(string \<times> json) list \<Rightarrow> string \<Rightarrow> json" where
  "get obj k = (case map_of obj k of None \<Rightarrow> JNull | Some v \<Rightarrow> v)"

definition get_default :: "(string \<times> json) list \<Rightarrow> string \<Rightarrow> json \<Rightarrow> json" where
  "get_default obj k d = (case map_of obj k of None \<Rightarrow> d | Some v \<Rightarrow> v)"

fun set_item :: "(string \<times> json) list \<Rightarrow> string \<Rightarrow> json \<Rightarrow> (string \<times> json) list" where
  "set_item [] k v = [(k, v)]"
| "set_item ((k', v') # kvs) k v =
     (if k' = k then (k, v) # kvs else (k', v') # set_item kvs k v)"

fun py_truthy :: "json \<Rightarrow> bool" where
  "py_truthy JNull = False"
| "py_truthy (JBool b) = b"
| "py_truthy (JInt i) = (i \<noteq> 0)"
| "py_truthy (JFloat f) = (f \<noteq> Num (Fin 0))"
| "py_truthy (JStr s) = (s \<noteq> [])"
| "py_truthy (JArr xs) = (xs \<noteq> [])"
| "py_truthy (JObj kvs) = (kvs \<noteq> [])"

definition digit_char :: "nat \<Rightarrow> char" where
  "digit_char n = char_of (48 + n)"

function str_nat :: "nat \<Rightarrow> string" where
  "str_nat n = (if n < 10 then [digit_char n] else str_nat (n div 10) @ [digit_char (n mod 10)])"
  by pat_completeness auto
termination
  by (relation "measure (\<lambda>n. n)") auto

declare str_nat.simps [simp del]

text \<open>\<^verbatim>\<open>str()\<close> on an int.\<close>

definition str_int :: "int \<Rightarrow> string" where
  "str_int i = (if i < 0 then CHR ''-'' # str_nat (nat (- i)) else str_nat (nat i))"

fun py_str :: "'dt pylib \<Rightarrow> json \<Rightarrow> string" where
  "py_str L JNull = ''None''"
| "py_str L (JBool b) = (if b then ''True'' else ''False'')"
| "py_str L (JInt i) = str_int i"
| "py_str L (JStr s) = s"
| "py_str L v = repr_of L v"

subsection \<open>String methods\<close>

text \<open>\<^verbatim>\<open>str.isspace\<close>, \<^verbatim>\<open>str.isdigit\<close> and \<^verbatim>\<open>str.lower\<close> on one code point below 256.\<close>

definition is_space :: "char \<Rightarrow> bool" where
  "is_space c = (of_char c \<in> {9, 10, 11, 12, 13, 28, 29, 30, 31, 32, 133, 160 :: nat})"

definition strip :: "string \<Rightarrow> string" where
  "strip s = rev (dropWhile is_space (rev (dropWhile is_space s)))"

text \<open>The decimal digits, and with them the superscripts 1, 2 and 3.\<close>

definition is_decimal :: "char \<Rightarrow> bool" where
  "is_decimal c = (48 \<le> (of_char c :: nat) \<and> (of_char c :: nat) \<le> 57)"

definition is_digit :: "char \<Rightarrow> bool" where
  "is_digit c = (is_decimal c \<or> of_char c \<in> {178, 179, 185 :: nat})"

definition isdigit :: "string \<Rightarrow> bool" where
  "isdigit s = (s \<noteq> [] \<and> list_all is_digit s)"

text \<open>\<^verbatim>\<open>s.replace(".", "", 1)\<close>: the first dot is removed.\<close>

fun replace_dot_once :: "string \<Rightarrow> string" where
  "replace_dot_once [] = []"
| "replace_dot_once (c # cs) = (if c = CHR ''.'' then cs else c # replace_dot_once cs)"

text \<open>
  The capital letters are A to Z and, in the upper half, the code points 192
  to 222 without the multiplication sign 215; the small letter is 32 further.
\<close>

definition lower_char :: "char \<Rightarrow> char" where
  "lower_char c =
     (let n = (of_char c :: nat)
      in if (65 \<le> n \<and> n \<le> 90) \<or> (192 \<le> n \<and> n \<le> 222 \<and> n \<noteq> 215) then char_of (n + 32) else c)"

definition lower :: "string \<Rightarrow> string" where
  "lower s = map lower_char s"

fun starts_with :: "string \<Rightarrow> string \<Rightarrow> bool" where
  "starts_with [] s = True"
| "starts_with (c # cs) [] = False"
| "starts_with (c # cs) (d # ds) = (c = d \<and> starts_with cs ds)"

text \<open>\<^verbatim>\<open>sub in s\<close> on strings.\<close>

fun contains :: "string \<Rightarrow> string \<Rightarrow> bool" where
  "contains sub [] = (sub = [])"
| "contains sub (c # cs) = (starts_with sub (c # cs) \<or> contains sub cs)"

subsection \<open>float()\<close>

definition digits_val :: "string \<Rightarrow> int" where
  "digits_val s = foldl (\<lambda>a c. 10 * a + (of_char c - 48)) 0 s"

text \<open>The value of a decimal numeral with at most one dot.\<close>

definition decimal_value :: "string \<Rightarrow> rat" where
  "decimal_value s =
     (let ip = takeWhile (\<lambda>c. c \<noteq> CHR ''.'') s;
          fp = drop 1 (dropWhile (\<lambda>c. c \<noteq> CHR ''.'') s)
      in of_int (digits_val ip) + of_int (digits_val fp) / 10 ^ length fp)"

text \<open>
  \<^verbatim>\<open>float(s)\<close> where \<open>s\<close> is made of digits and at most one dot, as
  \<open>isdigit (replace_dot_once s)\<close> says: the value of the numeral, rounded;
  \<open>None\<close> is the \<^verbatim>\<open>ValueError\<close> raised for a digit that is not decimal.
\<close>

definition float_digits :: "string \<Rightarrow> score option" where
  "float_digits s =
     (if list_all (\<lambda>c. is_decimal c \<or> c = CHR ''.'') s then Some (round_double (decimal_value s))
      else None)"

text \<open>\<^verbatim>\<open>float(s)\<close> on any string.\<close>

definition float_str :: "'dt pylib \<Rightarrow> string \<Rightarrow> py_exception + pyfloat" where
  "float_str L s =
     (if isdigit (replace_dot_once s)
      then (case float_digits s of None \<Rightarrow> Inl ValueError | Some n \<Rightarrow> Inr (Num n))
      else (case float_of_str L s of None \<Rightarrow> Inl ValueError | Some f \<Rightarrow> Inr f))"

text \<open>\<^verbatim>\<open>float(v)\<close> on a decoded JSON value.\<close>

fun py_float :: "'dt pylib \<Rightarrow> json \<Rightarrow> py_exception + pyfloat" where
  "py_float L JNull = Inl TypeError"
| "py_float L (JBool b) = Inr (Num (Fin (if b then 1 else 0)))"
| "py_float L (JInt i) =
     (case round_double (of_int i) of Fin r \<Rightarrow> Inr (Num (Fin r)) | _ \<Rightarrow> Inl OverflowError)"
| "py_float L (JFloat f) = Inr f"
| "py_float L (JStr s) = float_str L s"
| "py_float L (JArr xs) = Inl TypeError"
| "py_float L (JObj kvs) = Inl TypeError"

section \<open>The search API: to\_epoch\<close>

definition to_epoch :: "'dt pylib \<Rightarrow> string \<Rightarrow> py_exception + score" where
  "to_epoch L x =
     (let s = strip x in
      if isdigit (replace_dot_once s)
      then (case float_digits s of
              None \<Rightarrow> Inl ValueError
            | Some n \<Rightarrow> Inr (if Fin 10000000000 < n then div_1000 n else n))
      else (case dt_parse L s of
              Inl e \<Rightarrow> Inl e
            | Inr dt \<Rightarrow>
                (let dt' = (if dt_naive L dt then dt_replace_tz L dt else dt)
                 in dt_timestamp L dt')))"

section \<open>The Redis store\<close>

text \<open>
  Redis is the storage both programs work on. The store keeps one map per
  value type: STRING keys (the dedupe markers \<^verbatim>\<open><prefix>:seen:<id>\<close> and the
  forward records \<^verbatim>\<open><prefix>:req:<id>\<close>), ZSET keys (the time index) and SET
  keys (the attribute indexes). Each key carries the time-to-live, in seconds,
  that the last command gave it (\<open>None\<close>: no expiration). The passing of time
  is not modelled: a key expires when the environment removes it, see \<open>built\<close>
  below. The reply \<^verbatim>\<open>WRONGTYPE\<close>, for a key that holds a value of another
  type, is not modelled: the key families of one prefix are pairwise distinct.

  A ZSET is the list of its (member, score) pairs in the order of
  \<^verbatim>\<open>ZRANGEBYSCORE\<close>: ascending by score, equal scores by member.
\<close>

record redis =
  strings :: "string \<rightharpoonup> string \<times> nat option"
  zsets :: "string \<rightharpoonup> (string \<times> score) list \<times> nat option"
  sets :: "string \<rightharpoonup> string set \<times> nat option"

definition empty_redis :: redis where
  "empty_redis = \<lparr>strings = Map.empty, zsets = Map.empty, sets = Map.empty\<rparr>"

datatype cmd =
    SetNX string string "nat option"
  | SetStr string string
  | Expire string nat
  | ZAdd string string pyfloat
  | SAdd string string

definition zle :: "string \<times> score \<Rightarrow> string \<times> score \<Rightarrow> bool" where
  "zle a b = (snd a < snd b \<or> (snd a = snd b \<and> fst a \<le> fst b))"

fun zinsert :: "string \<times> score \<Rightarrow> (string \<times> score) list \<Rightarrow> (string \<times> score) list" where
  "zinsert x [] = [x]"
| "zinsert x (y # ys) = (if zle x y then x # y # ys else y # zinsert x ys)"

definition zadd :: "string \<Rightarrow> score \<Rightarrow> (string \<times> score) list \<Rightarrow> (string \<times> score) list" where
  "zadd m s zs = zinsert (m, s) (filter (\<lambda>e. fst e \<noteq> m) zs)"

definition set_ttl :: "nat \<Rightarrow> ('a \<times> nat option) option \<Rightarrow> ('a \<times> nat option) option" where
  "set_ttl t e = map_option (\<lambda>(v, _). (v, Some t)) e"

text \<open>
  One command on the store, with the truth value of its reply. The server
  refuses a score that is NaN: the command changes nothing and its reply is an
  error.
\<close>

fun exec_cmd :: "cmd \<Rightarrow> redis \<Rightarrow> redis \<times> bool" where
  "exec_cmd (SetNX k v ex) st =
     (if k \<in> dom (strings st) then (st, False)
      else (st\<lparr>strings := (strings st)(k \<mapsto> (v, ex))\<rparr>, True))"
| "exec_cmd (SetStr k v) st = (st\<lparr>strings := (strings st)(k \<mapsto> (v, None))\<rparr>, True)"
| "exec_cmd (Expire k t) st =
     (st\<lparr>strings := (strings st)(k := set_ttl t (strings st k)),
         zsets := (zsets st)(k := set_ttl t (zsets st k)),
         sets := (sets st)(k := set_ttl t (sets st k))\<rparr>,
      k \<in> dom (strings st) \<or> k \<in> dom (zsets st) \<or> k \<in> dom (sets st))"
| "exec_cmd (ZAdd k m NaN) st = (st, False)"
| "exec_cmd (ZAdd k m (Num s)) st =
     (case zsets st k of
        None \<Rightarrow> (st\<lparr>zsets := (zsets st)(k \<mapsto> ([(m, s)], None))\<rparr>, True)
      | Some (zs, t) \<Rightarrow> (st\<lparr>zsets := (zsets st)(k \<mapsto> (zadd m s zs, t))\<rparr>, m \<notin> fst ` set zs))"
| "exec_cmd (SAdd k m) st =
     (case sets st k of
        None \<Rightarrow> (st\<lparr>sets := (sets st)(k \<mapsto> ({m}, None))\<rparr>, True)
      | Some (S, t) \<Rightarrow> (st\<lparr>sets := (sets st)(k \<mapsto> (insert m S, t))\<rparr>, m \<notin> S))"

fun refused :: "cmd \<Rightarrow> bool" where
  "refused (ZAdd k m NaN) = True"
| "refused c = False"

text \<open>
  \<^verbatim>\<open>pipeline.execute()\<close>: the queued commands run in order, every one of them,
  and the replies are returned; when a reply is an error, \<^verbatim>\<open>execute\<close> raises it
  after the last command has run (\<open>raises\<close>).
\<close>

fun execute :: "cmd list \<Rightarrow> redis \<Rightarrow> redis \<times> bool list" where
  "execute [] st = (st, [])"
| "execute (c # cs) st =
     (let (st1, r) = exec_cmd c st; (st2, rs) = execute cs st1 in (st2, r # rs))"

definition raises :: "cmd list \<Rightarrow> bool" where
  "raises cs = list_ex refused cs"

definition zrangebyscore :: "redis \<Rightarrow> string \<Rightarrow> score \<Rightarrow> score \<Rightarrow> string list" where
  "zrangebyscore st k lo hi =
     (case zsets st k of
        None \<Rightarrow> []
      | Some (zs, t) \<Rightarrow> map fst (filter (\<lambda>e. lo \<le> snd e \<and> snd e \<le> hi) zs))"

definition smembers :: "redis \<Rightarrow> string \<Rightarrow> string set" where
  "smembers st k = (case sets st k of None \<Rightarrow> {} | Some (S, t) \<Rightarrow> S)"

definition redis_get :: "redis \<Rightarrow> string \<Rightarrow> string option" where
  "redis_get st k = map_option fst (strings st k)"

subsection \<open>The key schema\<close>

definition z_ts :: "string \<Rightarrow> string" where
  "z_ts prefix = prefix @ '':requests:by_date''"

definition seen_key :: "string \<Rightarrow> string \<Rightarrow> string" where
  "seen_key prefix rid = prefix @ '':seen:'' @ rid"

definition req_key :: "string \<Rightarrow> string \<Rightarrow> string" where
  "req_key prefix rid = prefix @ '':req:'' @ rid"

definition set_key :: "string \<Rightarrow> string \<Rightarrow> string \<Rightarrow> string" where
  "set_key prefix kind val = prefix @ '':'' @ kind @ '':'' @ val"

section \<open>The search API: search\_reports\<close>

record query =
  q_start :: string
  q_end :: string
  q_prefix :: string
  q_server_name :: "string option"
  q_ip :: "string option"
  q_security_mode :: "string option"
  q_status :: "int option"
  q_reason :: "string option"
  q_country :: "string option"
  q_method :: "string option"
  q_url_contains :: "string option"
  q_ua_contains :: "string option"
  q_order :: string
  q_limit :: int

record search_result =
  count :: nat
  top_ips :: "(json \<times> nat) list"
  top_urls :: "(json \<times> nat) list"
  top_reasons :: "(json \<times> nat) list"
  results :: "(string \<times> json) list list"

text \<open>\<^verbatim>\<open>if ip:\<close> on an optional string: given and not empty.\<close>

definition given :: "string option \<Rightarrow> bool" where
  "given v = (case v of None \<Rightarrow> False | Some s \<Rightarrow> s \<noteq> [])"

definition intersect :: "redis \<Rightarrow> string \<Rightarrow> string \<Rightarrow> string \<Rightarrow> string set \<Rightarrow> string set" where
  "intersect st prefix kind val candidates = candidates \<inter> smembers st (set_key prefix kind val)"

text \<open>Lines 171 to 200: the candidate set after the exact filters, in the order of the source.\<close>

definition candidates_of :: "redis \<Rightarrow> query \<Rightarrow> string list \<Rightarrow> string set" where
  "candidates_of st q ids =
     (let p = q_prefix q;
          c0 = set ids;
          c1 = (if given (q_ip q) then intersect st p ''ip'' (the (q_ip q)) c0 else c0);
          c2 = (if given (q_server_name q) then intersect st p ''server'' (the (q_server_name q)) c1 else c1);
          c3 = (if given (q_security_mode q) then intersect st p ''mode'' (the (q_security_mode q)) c2 else c2);
          c4 = (if q_status q \<noteq> None then intersect st p ''status'' (str_int (the (q_status q))) c3 else c3);
          c5 = (if given (q_reason q) then intersect st p ''reason'' (the (q_reason q)) c4 else c4);
          c6 = (if given (q_country q) then intersect st p ''country'' (the (q_country q)) c5 else c5);
          c7 = (if given (q_method q) then intersect st p ''method'' (the (q_method q)) c6 else c6)
      in c7)"

text \<open>\<^verbatim>\<open>xs[:limit]\<close>: a negative limit drops that many elements from the end.\<close>

definition slice_to :: "int \<Rightarrow> 'a list \<Rightarrow> 'a list" where
  "slice_to limit xs =
     (if 0 \<le> limit then take (nat limit) xs else take (length xs - nat (- limit)) xs)"

definition url_ok :: "'dt pylib \<Rightarrow> query \<Rightarrow> (string \<times> json) list \<Rightarrow> bool" where
  "url_ok L q obj =
     (\<not> (given (q_url_contains q)
         \<and> \<not> contains (the (q_url_contains q)) (py_str L (get_default obj ''url'' (JStr [])))))"

definition ua_ok :: "'dt pylib \<Rightarrow> query \<Rightarrow> (string \<times> json) list \<Rightarrow> bool" where
  "ua_ok L q obj =
     (\<not> (given (q_ua_contains q)
         \<and> \<not> contains (lower (the (q_ua_contains q)))
                (lower (py_str L (get_default obj ''user_agent'' (JStr []))))))"

text \<open>
  \<^verbatim>\<open>datetime.fromtimestamp(ts, tz=TZ).isoformat()\<close>: NaN is refused with a
  \<^verbatim>\<open>ValueError\<close>.
\<close>

definition from_timestamp :: "'dt pylib \<Rightarrow> pyfloat \<Rightarrow> py_exception + string" where
  "from_timestamp L ts = (case ts of NaN \<Rightarrow> Inl ValueError | Num s \<Rightarrow> date_human L s)"

text \<open>
  Lines 207 to 232, the loop over \<^verbatim>\<open>ordered\<close>: the records appended to
  \<^verbatim>\<open>results\<close>, or the exception that ends the request.
\<close>

fun fetch :: "'dt pylib \<Rightarrow> redis \<Rightarrow> query \<Rightarrow> string list \<Rightarrow> py_exception + (string \<times> json) list list" where
  "fetch L st q [] = Inr []"
| "fetch L st q (rid # rest) =
     (case redis_get st (req_key (q_prefix q) rid) of
        None \<Rightarrow> fetch L st q rest
      | Some raw \<Rightarrow>
          if raw = [] then fetch L st q rest
          else (case json_loads L raw of
                  None \<Rightarrow> Inl JSONDecodeError
                | Some (JObj obj) \<Rightarrow>
                    if \<not> url_ok L q obj then fetch L st q rest
                    else if \<not> ua_ok L q obj then fetch L st q rest
                    else (case py_float L (get_default obj ''date'' (JInt 0)) of
                            Inl e \<Rightarrow> Inl e
                          | Inr ts \<Rightarrow>
                              (case from_timestamp L ts of
                                 Inl e \<Rightarrow> Inl e
                               | Inr h \<Rightarrow>
                                   (case fetch L st q rest of
                                      Inl e \<Rightarrow> Inl e
                                    | Inr rs \<Rightarrow> Inr (set_item obj ''_date_human'' (JStr h) # rs))))
                | Some _ \<Rightarrow> Inl AttributeError))"

subsection \<open>Counter(...).most\_common(10)\<close>

fun py_num :: "json \<Rightarrow> pyfloat option" where
  "py_num (JBool b) = Some (Num (Fin (if b then 1 else 0)))"
| "py_num (JInt i) = Some (Num (Fin (of_int i)))"
| "py_num (JFloat f) = Some f"
| "py_num v = None"

text \<open>
  Equality of dictionary keys: numbers and booleans compare by value. The NaN
  of all decoded documents is one object, a key equal to itself.
\<close>

definition py_eq :: "json \<Rightarrow> json \<Rightarrow> bool" where
  "py_eq a b =
     (case (py_num a, py_num b) of
        (Some x, Some y) \<Rightarrow> x = y
      | (None, None) \<Rightarrow> a = b
      | _ \<Rightarrow> False)"

fun hashable :: "json \<Rightarrow> bool" where
  "hashable (JArr xs) = False"
| "hashable (JObj kvs) = False"
| "hashable v = True"

fun count_add :: "json \<Rightarrow> (json \<times> nat) list \<Rightarrow> (json \<times> nat) list" where
  "count_add v [] = [(v, 1)]"
| "count_add v ((k, c) # kcs) =
     (if py_eq k v then (k, c + 1) # kcs else (k, c) # count_add v kcs)"

definition counter :: "json list \<Rightarrow> (json \<times> nat) list" where
  "counter vs = foldl (\<lambda>acc v. count_add v acc) [] vs"

definition most_common :: "nat \<Rightarrow> (json \<times> nat) list \<Rightarrow> (json \<times> nat) list" where
  "most_common n kcs = take n (sort_key (\<lambda>kc. - int (snd kc)) kcs)"

definition top :: "string \<Rightarrow> (string \<times> json) list list \<Rightarrow> py_exception + (json \<times> nat) list" where
  "top field rs =
     (let vs = filter py_truthy (map (\<lambda>x. get x field) rs)
      in if list_all hashable vs then Inr (most_common 10 (counter vs)) else Inl TypeError)"

subsection \<open>The endpoint\<close>

definition ordered_ids :: "redis \<Rightarrow> query \<Rightarrow> score \<Rightarrow> score \<Rightarrow> string list" where
  "ordered_ids st q start_ts end_ts =
     (let ids = zrangebyscore st (z_ts (q_prefix q)) start_ts end_ts;
          ids = (if q_order q = ''newest'' then rev ids else ids);
          candidates = candidates_of st q ids
      in slice_to (q_limit q) (filter (\<lambda>rid. rid \<in> candidates) ids))"

definition search_reports :: "'dt pylib \<Rightarrow> redis \<Rightarrow> query \<Rightarrow> py_exception + search_result" where
  "search_reports L st q =
     (case to_epoch L (q_start q) of
        Inl e \<Rightarrow> Inl e
      | Inr start_ts \<Rightarrow>
     (case to_epoch L (q_end q) of
        Inl e \<Rightarrow> Inl e
      | Inr end_ts \<Rightarrow>
     (case fetch L st q (ordered_ids st q start_ts end_ts) of
        Inl e \<Rightarrow> Inl e
      | Inr rs \<Rightarrow>
     (case top ''ip'' rs of
        Inl e \<Rightarrow> Inl e
      | Inr ips \<Rightarrow>
     (case top ''url'' rs of
        Inl e \<Rightarrow> Inl e
      | Inr urls \<Rightarrow>
     (case top ''reason'' rs of
        Inl e \<Rightarrow> Inl e
      | Inr reasons \<Rightarrow>
          Inr \<lparr>count = length rs, top_ips = ips, top_urls = urls,
               top_reasons = reasons, results = rs\<rparr>))))))"

text \<open>
  The endpoint runs under FastAPI. A handler that raises an exception other
  than \<^verbatim>\<open>HTTPException\<close> is answered with status 500; \<^verbatim>\<open>search_reports\<close> raises
  no \<^verbatim>\<open>HTTPException\<close> and catches nothing, so these are its two outcomes.
\<close>

definition http_status :: "py_exception + search_result \<Rightarrow> nat" where
  "http_status r = (case r of Inl e \<Rightarrow> 500 | Inr res \<Rightarrow> 200)"

definition client_error :: "nat \<Rightarrow> bool" where
  "client_error code = (400 \<le> code \<and> code < 500)"

section \<open>The indexer\<close>

text \<open>
  \<^verbatim>\<open>main\<close> of \<^verbatim>\<open>bw_indexer.py\<close>. The source list is the list of raw entries
  that \<^verbatim>\<open>LRANGE\<close> reads. A run leaves a store and ends in one of two ways: it
  returns, with its four counters, or an exception that the source does not
  catch aborts it (\<open>None\<close>): a document that is not a JSON object
  (\<^verbatim>\<open>obj.get\<close>), an id that is not a string where \<^verbatim>\<open>rid.encode()\<close> is called,
  an id that cannot be the key of the \<^verbatim>\<open>zadd\<close> mapping or that the Redis client
  refuses as a member, a date that is NaN, which the server refuses as a
  score, and a zero chunk size (\<^verbatim>\<open>range\<close>).
\<close>

record counters =
  new_count :: nat
  bad_json :: nat
  no_id :: nat
  no_date :: nat

type_synonym parsed = "json \<times> (string \<times> json) list \<times> string"

text \<open>\<^verbatim>\<open>if ttl:\<close> on the optional number of seconds.\<close>

definition ttl_on :: "nat option \<Rightarrow> bool" where
  "ttl_on ttl = (case ttl of None \<Rightarrow> False | Some t \<Rightarrow> t \<noteq> 0)"

text \<open>Lines 139 to 161, the first pass over a chunk.\<close>

fun admit :: "'dt pylib \<Rightarrow> string \<Rightarrow> nat option \<Rightarrow> string list
    \<Rightarrow> parsed list \<times> cmd list \<times> counters \<Rightarrow> (parsed list \<times> cmd list \<times> counters) option" where
  "admit L prefix ttl [] acc = Some acc"
| "admit L prefix ttl (raw # items) (parsed, p, c) =
     (case json_loads L raw of
        None \<Rightarrow> admit L prefix ttl items (parsed, p, c\<lparr>bad_json := bad_json c + 1\<rparr>)
      | Some (JObj obj) \<Rightarrow>
          (let rid = get obj ''id'' in
           if \<not> py_truthy rid
           then admit L prefix ttl items (parsed, p, c\<lparr>no_id := no_id c + 1\<rparr>)
           else admit L prefix ttl items
                  (parsed @ [(rid, obj, raw)],
                   p @ [SetNX (seen_key prefix (py_str L rid)) ''1''
                          (if ttl_on ttl then ttl else None)],
                   c))
      | Some _ \<Rightarrow> None)"

text \<open>
  The member that \<^verbatim>\<open>p.zadd(z_ts, {rid: ts})\<close> sends: a string as it is, a number
  by its \<^verbatim>\<open>repr\<close>; a list or dict cannot be a dictionary key and the client
  refuses a bool, before it sends any command of the pipeline.
\<close>

fun member_of :: "'dt pylib \<Rightarrow> json \<Rightarrow> string option" where
  "member_of L (JStr s) = Some s"
| "member_of L (JInt i) = Some (py_str L (JInt i))"
| "member_of L (JFloat r) = Some (py_str L (JFloat r))"
| "member_of L v = None"

text \<open>\<^verbatim>\<open>rid.encode()\<close>: only a string has the method.\<close>

fun encode :: "json \<Rightarrow> string option" where
  "encode (JStr s) = Some s"
| "encode v = None"

definition index_fields :: "(string \<times> string) list" where
  "index_fields =
     [(''ip'', ''ip''), (''server'', ''server_name''), (''mode'', ''security_mode''),
      (''status'', ''status''), (''reason'', ''reason''), (''country'', ''country''),
      (''method'', ''method'')]"

text \<open>Lines 195 to 214, the loop over the indexed fields of one record.\<close>

fun index_attrs :: "'dt pylib \<Rightarrow> string \<Rightarrow> nat option \<Rightarrow> json \<Rightarrow> (string \<times> json) list
    \<Rightarrow> (string \<times> string) list \<Rightarrow> cmd list \<Rightarrow> cmd list option" where
  "index_attrs L prefix ttl rid obj [] p = Some p"
| "index_attrs L prefix ttl rid obj ((kind, field) # rest) p =
     (let v = get obj field in
      if v = JNull \<or> v = JStr [] then index_attrs L prefix ttl rid obj rest p
      else (let k = set_key prefix kind (py_str L v) in
            case encode rid of
              None \<Rightarrow> None
            | Some m \<Rightarrow>
                index_attrs L prefix ttl rid obj rest
                  (p @ [SAdd k m] @ (if ttl_on ttl then [Expire k (the ttl)] else []))))"

text \<open>Lines 172 to 216, the second pass over a chunk.\<close>

fun commit :: "'dt pylib \<Rightarrow> string \<Rightarrow> nat option \<Rightarrow> (parsed \<times> bool) list
    \<Rightarrow> cmd list \<times> counters \<Rightarrow> (cmd list \<times> counters) option" where
  "commit L prefix ttl [] acc = Some acc"
| "commit L prefix ttl (((rid, obj, raw), is_new) # rest) (p, c) =
     (if \<not> is_new then commit L prefix ttl rest (p, c)
      else (case py_float L (get obj ''date'') of
              Inl e \<Rightarrow> commit L prefix ttl rest (p, c\<lparr>no_date := no_date c + 1\<rparr>)
            | Inr ts \<Rightarrow>
                (let k = req_key prefix (py_str L rid);
                     p1 = p @ [SetStr k raw] @ (if ttl_on ttl then [Expire k (the ttl)] else [])
                 in case member_of L rid of
                      None \<Rightarrow> None
                    | Some m \<Rightarrow>
                        (case index_attrs L prefix ttl rid obj index_fields
                                (p1 @ [ZAdd (z_ts prefix) m ts]) of
                           None \<Rightarrow> None
                         | Some p2 \<Rightarrow>
                             commit L prefix ttl rest (p2, c\<lparr>new_count := new_count c + 1\<rparr>)))))"

text \<open>
  Lines 136 to 223, the body of the loop over the chunks: the store that the
  chunk leaves, and the counters when the run goes on. An exception of the
  first pass comes before any command of the chunk; one of the second pass
  comes after the markers are set and before any other command; an error reply
  in the second pipeline is raised after all its commands have run.
\<close>

definition process_chunk :: "'dt pylib \<Rightarrow> string \<Rightarrow> nat option \<Rightarrow> string list
    \<Rightarrow> redis \<times> counters \<Rightarrow> redis \<times> counters option" where
  "process_chunk L prefix ttl items s =
     (case admit L prefix ttl items ([], [], snd s) of
        None \<Rightarrow> (fst s, None)
      | Some (parsed, p, c1) \<Rightarrow>
          (let (st1, is_new_list) = (if parsed \<noteq> [] then execute p (fst s) else (fst s, []))
           in case commit L prefix ttl (zip parsed is_new_list) ([], c1) of
                None \<Rightarrow> (st1, None)
              | Some (p2, c2) \<Rightarrow>
                  if new_count c2 \<noteq> 0
                  then (fst (execute p2 st1), if raises p2 then None else Some c2)
                  else (st1, Some c2)))"

text \<open>\<^verbatim>\<open>LRANGE key start stop\<close>, both ends included.\<close>

definition lrange :: "'a list \<Rightarrow> nat \<Rightarrow> nat \<Rightarrow> 'a list" where
  "lrange xs start stop = take (stop + 1 - start) (drop start xs)"

function run_chunks :: "'dt pylib \<Rightarrow> string \<Rightarrow> nat option \<Rightarrow> nat \<Rightarrow> string list \<Rightarrow> nat
    \<Rightarrow> redis \<times> counters \<Rightarrow> redis \<times> counters option" where
  "run_chunks L prefix ttl chunk source start s =
     (if chunk = 0 \<or> length source \<le> start then (fst s, Some (snd s))
      else (let items = lrange source start (min (start + chunk - 1) (length source - 1))
            in if items = [] then (fst s, Some (snd s))
               else (case process_chunk L prefix ttl items s of
                       (st', None) \<Rightarrow> (st', None)
                     | (st', Some c') \<Rightarrow> run_chunks L prefix ttl chunk source (start + chunk) (st', c'))))"
  by pat_completeness auto
termination
  by (relation "measure (\<lambda>(L, prefix, ttl, chunk, source, start, s). length source - start)") auto

declare run_chunks.simps [simp del]

definition main :: "'dt pylib \<Rightarrow> string list \<Rightarrow> string \<Rightarrow> int \<Rightarrow> int \<Rightarrow> redis
    \<Rightarrow> redis \<times> counters option" where
  "main L source prefix ttl_days chunk st =
     (let ttl = (if ttl_days \<noteq> 0 \<and> ttl_days > 0 then Some (nat (ttl_days * 86400)) else None);
          c0 = \<lparr>new_count = 0, bad_json = 0, no_id = 0, no_date = 0\<rparr>
      in if chunk = 0 then (st, None)
         else if chunk < 0 then (st, Some c0)
         else run_chunks L prefix ttl (nat chunk) source 0 (st, c0))"

section \<open>Sample data\<close>

text \<open>
  A library instance and a few documents on which the definitions are run.
  The sample decoder knows the raw entries below by name; every other entry
  is malformed for it. The sample date parser refuses every string.
\<close>

definition doc_a :: "(string \<times> json) list" where
  "doc_a = [(''id'', JStr ''a''), (''date'', JInt 1000), (''ip'', JStr ''1.2.3.4''),
            (''security_mode'', JStr ''block''), (''status'', JInt 403),
            (''url'', JStr ''/admin''), (''user_agent'', JStr ''Mozilla/5.0'')]"

definition doc_b :: "(string \<times> json) list" where
  "doc_b = [(''id'', JStr ''b''), (''date'', JInt 2000), (''ip'', JStr ''5.6.7.8''),
            (''security_mode'', JStr ''allow''), (''status'', JInt 200),
            (''url'', JStr ''/index''), (''user_agent'', JStr ''curl/8.0'')]"

definition doc_c :: "(string \<times> json) list" where
  "doc_c = [(''id'', JStr ''c''), (''date'', JInt 1500), (''ip'', JStr ''1.2.3.4''),
            (''security_mode'', JStr ''block''), (''status'', JInt 200),
            (''url'', JStr ''/login'')]"

definition doc_p :: "(string \<times> json) list" where
  "doc_p = [(''id'', JStr ''p''), (''ip'', JStr ''1.2.3.4'')]"

definition doc_k :: "(string \<times> json) list" where
  "doc_k = [(''id'', JStr ''req:k''), (''date'', JInt 1500)]"

definition doc_o :: "(string \<times> json) list" where
  "doc_o = [(''id'', JStr ''k''), (''date'', JInt 5000)]"

definition sample_loads :: "string \<Rightarrow> json option" where
  "sample_loads raw =
     (if raw = ''A'' then Some (JObj doc_a)
      else if raw = ''B'' then Some (JObj doc_b)
      else if raw = ''C'' then Some (JObj doc_c)
      else if raw = ''P'' then Some (JObj doc_p)
      else if raw = ''K'' then Some (JObj doc_k)
      else if raw = ''O'' then Some (JObj doc_o)
      else None)"

definition sample_lib :: "unit pylib" where
  "sample_lib =
     \<lparr>json_loads = sample_loads, float_of_str = (\<lambda>s. None), repr_of = (\<lambda>v. ''?''),
      dt_parse = (\<lambda>s. Inl ParserError), dt_naive = (\<lambda>d. True), dt_replace_tz = (\<lambda>d. d),
      dt_timestamp = (\<lambda>d. Inr (Fin 0)), date_human = (\<lambda>ts. Inr ''T'')\<rparr>"

definition sample_query :: query where
  "sample_query =
     \<lparr>q_start = ''0'', q_end = ''9999'', q_prefix = ''bw_idx'',
      q_server_name = None, q_ip = None, q_security_mode = None, q_status = None,
      q_reason = None, q_country = None, q_method = None,
      q_url_contains = None, q_ua_contains = None,
      q_order = ''newest'', q_limit = 50\<rparr>"

text \<open>The store that a run of the indexer over three sample entries builds.\<close>

definition sample_store :: redis where
  "sample_store = fst (main sample_lib [''A'', ''B'', ''C''] ''bw_idx'' 0 500 empty_redis)"

text \<open>
  A store written under two prefixes of which one continues the other: a run
  under \<^verbatim>\<open>bw_idx\<close> over three entries, then a run under \<^verbatim>\<open>bw_idx:req\<close> over
  one entry. The forward record of id \<^verbatim>\<open>req:k\<close> under the first prefix and
  that of id \<^verbatim>\<open>k\<close> under the second have the same key.
\<close>

definition mixed_store :: redis where
  "mixed_store =
     fst (main sample_lib [''O''] ''bw_idx:req'' 0 500
            (fst (main sample_lib [''A'', ''B'', ''K''] ''bw_idx'' 0 500 empty_redis)))"

text \<open>
  A store written under two independent prefixes: the sample store, then a run
  under \<^verbatim>\<open>edge\<close> over two entries.
\<close>

definition paired_store :: redis where
  "paired_store = fst (main sample_lib [''K'', ''O''] ''edge'' 0 500 sample_store)"

section \<open>What the claims speak of\<close>

text \<open>
  The definitions of this section are not translations of the source. They
  state, in the words of the specification, what the functions above are
  compared with: the string form of a status, the filters that a request
  supplies, what it is for a string to occur in another, and the records that
  pass the substring filters.
\<close>

text \<open>
  The string form of an integer is its decimal numeral: the digit of weight
  \<open>10^i\<close> is \<open>n div 10^i mod 10\<close>, the first digit comes first, and a negative
  number has a minus sign.
\<close>

function ndigits :: "nat \<Rightarrow> nat" where
  "ndigits n = (if n < 10 then 1 else Suc (ndigits (n div 10)))"
  by pat_completeness auto
termination
  by (relation "measure (\<lambda>n. n)") auto

declare ndigits.simps [simp del]

definition decimal_nat :: "nat \<Rightarrow> string" where
  "decimal_nat n = map (\<lambda>i. digit_char (n div 10 ^ i mod 10)) (rev [0 ..< ndigits n])"

definition decimal :: "int \<Rightarrow> string" where
  "decimal i = (if i < 0 then CHR ''-'' # decimal_nat (nat (- i)) else decimal_nat (nat i))"

text \<open>
  The exact filters that a request supplies, as (kind, value) pairs. A filter
  is supplied when its parameter is given and, for a string, not empty.
\<close>

definition wanted :: "string \<Rightarrow> string option \<Rightarrow> (string \<times> string) list" where
  "wanted kind v = (case v of None \<Rightarrow> [] | Some s \<Rightarrow> if s = [] then [] else [(kind, s)])"

definition supplied :: "query \<Rightarrow> (string \<times> string) list" where
  "supplied q =
     wanted ''ip'' (q_ip q) @ wanted ''server'' (q_server_name q) @
     wanted ''mode'' (q_security_mode q) @
     (case q_status q of None \<Rightarrow> [] | Some n \<Rightarrow> [(''status'', decimal n)]) @
     wanted ''reason'' (q_reason q) @ wanted ''country'' (q_country q) @
     wanted ''method'' (q_method q)"

text \<open>\<open>sub\<close> occurs in \<open>s\<close>.\<close>

definition substring :: "string \<Rightarrow> string \<Rightarrow> bool" where
  "substring sub s = (\<exists>a b. s = a @ sub @ b)"

text \<open>
  A record passes the substring filters when \<open>url_contains\<close>, if supplied,
  occurs in its url as it is written, and \<open>ua_contains\<close>, if supplied, occurs
  in its user agent once both are put in lower case.
\<close>

definition passes :: "'dt pylib \<Rightarrow> query \<Rightarrow> (string \<times> json) list \<Rightarrow> bool" where
  "passes L q obj =
     ((case q_url_contains q of
         None \<Rightarrow> True
       | Some u \<Rightarrow> u = [] \<or> substring u (py_str L (get_default obj ''url'' (JStr []))))
      \<and> (case q_ua_contains q of
            None \<Rightarrow> True
          | Some u \<Rightarrow> u = [] \<or>
              substring (lower u) (lower (py_str L (get_default obj ''user_agent'' (JStr []))))))"

text \<open>
  What one id of \<^verbatim>\<open>ordered\<close> contributes to \<^verbatim>\<open>results\<close>: \<open>kept\<close> holds when its
  forward record is there, decodes to an object and passes the substring
  filters; \<open>yields\<close> relates the id to the record appended for it.
\<close>

definition kept :: "'dt pylib \<Rightarrow> redis \<Rightarrow> query \<Rightarrow> string \<Rightarrow> bool" where
  "kept L st q rid =
     (case redis_get st (req_key (q_prefix q) rid) of
        None \<Rightarrow> False
      | Some raw \<Rightarrow>
          raw \<noteq> [] \<and>
          (case json_loads L raw of
             Some (JObj obj) \<Rightarrow> passes L q obj
           | _ \<Rightarrow> False))"

definition yields :: "'dt pylib \<Rightarrow> redis \<Rightarrow> query \<Rightarrow> string \<Rightarrow> (string \<times> json) list \<Rightarrow> bool" where
  "yields L st q rid rec =
     (case redis_get st (req_key (q_prefix q) rid) of
        None \<Rightarrow> False
      | Some raw \<Rightarrow>
          (case json_loads L raw of
             Some (JObj obj) \<Rightarrow>
               (case py_float L (get_default obj ''date'' (JInt 0)) of
                  Inl e \<Rightarrow> False
                | Inr ts \<Rightarrow>
                    (case from_timestamp L ts of
                       Inl e \<Rightarrow> False
                     | Inr h \<Rightarrow> rec = set_item obj ''_date_human'' (JStr h)))
           | _ \<Rightarrow> False))"

text \<open>The date of a returned record, as \<^verbatim>\<open>float\<close> reads its \<^verbatim>\<open>date\<close> field.\<close>

definition date_of :: "'dt pylib \<Rightarrow> (string \<times> json) list \<Rightarrow> py_exception + pyfloat" where
  "date_of L rec = py_float L (get rec ''date'')"

section \<open>The commands of a chunk, written out\<close>

text \<open>
  The two passes queue commands and run them afterwards. The functions below
  name what they queue: the entries that the first pass admits, the marker
  command of each, the entries that the second pass commits (newly marked,
  with a date that \<^verbatim>\<open>float\<close> accepts) and the commands of one committed
  record. The lemmas of the next sections show that \<open>admit\<close> and \<open>commit\<close>
  queue exactly these.
\<close>

definition parse_entry :: "'dt pylib \<Rightarrow> string \<Rightarrow> parsed option" where
  "parse_entry L raw =
     (case json_loads L raw of
        Some (JObj obj) \<Rightarrow>
          if py_truthy (get obj ''id'') then Some (get obj ''id'', obj, raw) else None
      | _ \<Rightarrow> None)"

definition decodable :: "'dt pylib \<Rightarrow> string \<Rightarrow> bool" where
  "decodable L raw = (case json_loads L raw of None \<Rightarrow> True | Some (JObj obj) \<Rightarrow> True | _ \<Rightarrow> False)"

definition seen_cmd :: "'dt pylib \<Rightarrow> string \<Rightarrow> nat option \<Rightarrow> parsed \<Rightarrow> cmd" where
  "seen_cmd L prefix ttl x =
     SetNX (seen_key prefix (py_str L (fst x))) ''1'' (if ttl_on ttl then ttl else None)"

definition exp_cmds :: "nat option \<Rightarrow> string \<Rightarrow> cmd list" where
  "exp_cmds ttl k = (if ttl_on ttl then [Expire k (the ttl)] else [])"

definition attr_keys :: "'dt pylib \<Rightarrow> string \<Rightarrow> (string \<times> json) list \<Rightarrow> (string \<times> string) list
    \<Rightarrow> string list" where
  "attr_keys L prefix obj fs =
     map (\<lambda>kf. set_key prefix (fst kf) (py_str L (get obj (snd kf))))
       (filter (\<lambda>kf. get obj (snd kf) \<noteq> JNull \<and> get obj (snd kf) \<noteq> JStr []) fs)"

definition attr_cmds :: "nat option \<Rightarrow> string \<Rightarrow> string list \<Rightarrow> cmd list" where
  "attr_cmds ttl m keys = concat (map (\<lambda>k. SAdd k m # exp_cmds ttl k) keys)"

definition record_cmds :: "string \<Rightarrow> nat option \<Rightarrow> string \<Rightarrow> string \<Rightarrow> pyfloat \<Rightarrow> string list
    \<Rightarrow> cmd list" where
  "record_cmds prefix ttl m raw ts keys =
     ([SetStr (req_key prefix m) raw] @ exp_cmds ttl (req_key prefix m)) @
     [ZAdd (z_ts prefix) m ts] @ attr_cmds ttl m keys"

type_synonym entry = "string \<times> string \<times> pyfloat \<times> (string \<times> json) list"

definition commit_entry :: "'dt pylib \<Rightarrow> parsed \<times> bool \<Rightarrow> entry option" where
  "commit_entry L x =
     (if snd x
      then (case py_float L (get (fst (snd (fst x))) ''date'') of
              Inl e \<Rightarrow> None
            | Inr ts \<Rightarrow> Some (py_str L (fst (fst x)), snd (snd (fst x)), ts, fst (snd (fst x))))
      else None)"

definition entry_cmds :: "'dt pylib \<Rightarrow> string \<Rightarrow> nat option \<Rightarrow> entry \<Rightarrow> cmd list" where
  "entry_cmds L prefix ttl e =
     (case e of (m, raw, ts, obj) \<Rightarrow>
        record_cmds prefix ttl m raw ts (attr_keys L prefix obj index_fields))"

text \<open>A property of the store that a list of commands keeps.\<close>

definition preserves :: "(redis \<Rightarrow> bool) \<Rightarrow> cmd list \<Rightarrow> bool" where
  "preserves P cs = (\<forall>st. P st \<longrightarrow> P (fst (execute cs st)))"

definition marks :: "'dt pylib \<Rightarrow> string \<Rightarrow> nat option \<Rightarrow> string list \<Rightarrow> cmd list" where
  "marks L prefix ttl items = map (seen_cmd L prefix ttl) (List.map_filter (parse_entry L) items)"

definition committed :: "'dt pylib \<Rightarrow> string \<Rightarrow> nat option \<Rightarrow> string list \<Rightarrow> redis \<Rightarrow> entry list" where
  "committed L prefix ttl items st =
     List.map_filter (commit_entry L)
       (zip (List.map_filter (parse_entry L) items) (snd (execute (marks L prefix ttl items) st)))"

definition commits :: "'dt pylib \<Rightarrow> string \<Rightarrow> nat option \<Rightarrow> string list \<Rightarrow> redis \<Rightarrow> cmd list" where
  "commits L prefix ttl items st =
     concat (map (entry_cmds L prefix ttl) (committed L prefix ttl items st))"

text \<open>
  A committed entry is sound when its raw bytes decode to its object and its
  score is the date of that object.
\<close>

definition sound_entry :: "'dt pylib \<Rightarrow> entry \<Rightarrow> bool" where
  "sound_entry L e =
     (case e of (m, raw, ts, obj) \<Rightarrow>
        json_loads L raw = Some (JObj obj) \<and> py_float L (get obj ''date'') = Inr ts)"

section \<open>Stores built by the indexer\<close>

text \<open>
  The keys of an index are its prefix followed by a colon and more. Two
  prefixes are independent when neither is the other followed by a colon and
  more; then no key of one index is a key of the other. A list of prefixes is
  separate when its prefixes are pairwise equal or independent.
\<close>

definition independent :: "string \<Rightarrow> string \<Rightarrow> bool" where
  "independent p p' = (\<not> starts_with (p @ '':'') p' \<and> \<not> starts_with (p' @ '':'') p)"

definition separate :: "string list \<Rightarrow> bool" where
  "separate ps = (\<forall>p \<in> set ps. \<forall>p' \<in> set ps. p \<noteq> p' \<longrightarrow> independent p p')"

text \<open>
  The stores that the indexer builds under the prefixes of a list: the empty
  store, then any number of runs, each under a prefix of the list, with any
  source list, retention and chunk size, whether the run returns or is
  aborted; between two runs a key that has a time-to-live may expire. Nothing
  else writes the keys.
\<close>

inductive built :: "'dt pylib \<Rightarrow> string list \<Rightarrow> redis \<Rightarrow> bool"
  for L :: "'dt pylib" and ps :: "string list" where
  built_empty: "built L ps empty_redis"
| built_run: "built L ps st \<Longrightarrow> prefix \<in> set ps
    \<Longrightarrow> built L ps (fst (main L source prefix ttl_days chunk st))"
| built_expire_string: "built L ps st \<Longrightarrow> strings st k = Some (v, Some t)
    \<Longrightarrow> built L ps (st\<lparr>strings := (strings st)(k := None)\<rparr>)"
| built_expire_zset: "built L ps st \<Longrightarrow> zsets st k = Some (zs, Some t)
    \<Longrightarrow> built L ps (st\<lparr>zsets := (zsets st)(k := None)\<rparr>)"
| built_expire_set: "built L ps st \<Longrightarrow> sets st k = Some (S, Some t)
    \<Longrightarrow> built L ps (st\<lparr>sets := (sets st)(k := None)\<rparr>)"

text \<open>
  The time index of a prefix is consistent with the forward records when it is
  ordered by score and the score of every member whose forward record is there
  is the date of that record, unless that date is NaN (the server has refused
  the new score of a record written again).
\<close>

definition consistent :: "'dt pylib \<Rightarrow> string \<Rightarrow> redis \<Rightarrow> bool" where
  "consistent L prefix st =
     (\<forall>zs t. zsets st (z_ts prefix) = Some (zs, t) \<longrightarrow>
        sorted (map snd zs) \<and>
        (\<forall>e \<in> set zs. \<forall>raw t'. strings st (req_key prefix (fst e)) = Some (raw, t') \<longrightarrow>
           (\<exists>obj. json_loads L raw = Some (JObj obj)
              \<and> (py_float L (get obj ''date'') = Inr (Num (snd e))
                   \<or> py_float L (get obj ''date'') = Inr NaN))))"

text \<open>
  The footprint of an id in the three index structures: its forward record,
  its scores in the time index and the attribute sets it belongs to.
  \<open>same_footprint\<close> says that two stores agree on it.
\<close>

definition zmembers :: "redis \<Rightarrow> string \<Rightarrow> (string \<times> score) list" where
  "zmembers st k = (case zsets st k of None \<Rightarrow> [] | Some (zs, t) \<Rightarrow> zs)"

definition same_footprint :: "string \<Rightarrow> string \<Rightarrow> redis \<Rightarrow> redis \<Rightarrow> bool" where
  "same_footprint prefix rid st st' =
     (strings st' (req_key prefix rid) = strings st (req_key prefix rid)
      \<and> {s. (rid, s) \<in> set (zmembers st' (z_ts prefix))}
          = {s. (rid, s) \<in> set (zmembers st (z_ts prefix))}
      \<and> (\<forall>k. rid \<in> smembers st' k \<longleftrightarrow> rid \<in> smembers st k))"

text \<open>The time-to-live that a run gives, from its retention in days (line 85).\<close>

definition ttl_of_days :: "int \<Rightarrow> nat option" where
  "ttl_of_days ttl_days =
     (if ttl_days \<noteq> 0 \<and> ttl_days > 0 then Some (nat (ttl_days * 86400)) else None)"

section \<open>Resolving start and end\<close>

lemma decimal_not_space: "is_decimal c \<Longrightarrow> \<not> is_space c"
  by (auto simp: is_decimal_def is_space_def)

lemma dot_not_space: "\<not> is_space CHR ''.''"
  by (simp add: is_space_def)

lemma dot_not_decimal: "\<not> is_decimal CHR ''.''"
  by (simp add: is_decimal_def)

lemma strip_pad:
  assumes l: "list_all is_space l" and r: "list_all is_space r"
    and s: "s \<noteq> []" "\<not> is_space (hd s)" "\<not> is_space (last s)"
  shows "strip (l @ s @ r) = s"
proof -
  from s obtain c cs where cs: "s = c # cs" and c: "\<not> is_space c" by (cases s) auto
  from l have "dropWhile is_space l = []" by (simp add: list_all_iff)
  with c have d1: "dropWhile is_space (l @ s @ r) = s @ r"
    unfolding cs by (simp add: dropWhile_append3)
  from s obtain d ds where ds: "rev s = d # ds" and d: "\<not> is_space d"
    by (cases "rev s") (auto simp: last_rev [symmetric] simp del: last_rev)
  from r have "dropWhile is_space (rev r) = []" by (simp add: list_all_iff)
  with d have "dropWhile is_space (rev r @ rev s) = rev s"
    unfolding ds by (simp add: dropWhile_append3)
  with d1 show ?thesis by (simp add: strip_def)
qed

lemma replace_dot_none: "CHR ''.'' \<notin> set a \<Longrightarrow> replace_dot_once a = a"
  by (induction a) auto

lemma replace_dot_first: "CHR ''.'' \<notin> set a \<Longrightarrow> replace_dot_once (a @ CHR ''.'' # b) = a @ b"
  by (induction a) auto

lemma decimal_no_dot: "list_all is_decimal a \<Longrightarrow> CHR ''.'' \<notin> set a"
  using dot_not_decimal by (auto simp: list_all_iff)

lemma takeWhile_no_dot: "CHR ''.'' \<notin> set a \<Longrightarrow> takeWhile (\<lambda>c. c \<noteq> CHR ''.'') a = a"
  by (rule takeWhile_eq_all_conv [THEN iffD2]) auto

lemma dropWhile_no_dot: "CHR ''.'' \<notin> set a \<Longrightarrow> dropWhile (\<lambda>c. c \<noteq> CHR ''.'') a = []"
  by (rule dropWhile_eq_Nil_conv [THEN iffD2]) auto

lemma decimal_value_int:
  assumes "CHR ''.'' \<notin> set a"
  shows "decimal_value a = of_int (digits_val a)"
  unfolding decimal_value_def Let_def takeWhile_no_dot [OF assms] dropWhile_no_dot [OF assms]
  by (simp add: digits_val_def)

lemma decimal_value_dot:
  assumes "CHR ''.'' \<notin> set a"
  shows "decimal_value (a @ CHR ''.'' # b) = of_int (digits_val a) + of_int (digits_val b) / 10 ^ length b"
proof -
  have "takeWhile (\<lambda>c. c \<noteq> CHR ''.'') (a @ CHR ''.'' # b) = takeWhile (\<lambda>c. c \<noteq> CHR ''.'') a"
    by (rule takeWhile_tail) simp
  then have t: "takeWhile (\<lambda>c. c \<noteq> CHR ''.'') (a @ CHR ''.'' # b) = a"
    by (simp only: takeWhile_no_dot [OF assms])
  have "dropWhile (\<lambda>c. c \<noteq> CHR ''.'') (a @ CHR ''.'' # b)
      = dropWhile (\<lambda>c. c \<noteq> CHR ''.'') a @ CHR ''.'' # b"
    by (rule dropWhile_append3) simp
  then have d: "dropWhile (\<lambda>c. c \<noteq> CHR ''.'') (a @ CHR ''.'' # b) = CHR ''.'' # b"
    by (simp only: dropWhile_no_dot [OF assms] append_Nil)
  show ?thesis
    unfolding decimal_value_def Let_def t d by simp
qed

text \<open>When \<open>to_epoch\<close> raises, and what.\<close>

lemma to_epoch_Inl:
  "to_epoch L x = Inl e \<longleftrightarrow>
     (if isdigit (replace_dot_once (strip x))
      then float_digits (strip x) = None \<and> e = ValueError
      else dt_parse L (strip x) = Inl e
           \<or> (\<exists>dt. dt_parse L (strip x) = Inr dt
                \<and> dt_timestamp L (if dt_naive L dt then dt_replace_tz L dt else dt) = Inl e))"
  by (auto simp: to_epoch_def Let_def split: option.splits sum.splits)

text \<open>
  Claim C8. A numeric input is a decimal numeral, digits with at most one dot,
  integer part \<open>a\<close> and fraction part \<open>b\<close>, with white space around it or not.
  Its value \<open>n\<close> is the float that \<^verbatim>\<open>float\<close> reads, the numeral rounded to a
  double. \<open>to_epoch\<close> returns \<open>n / 1000\<close>, in float arithmetic, when
  \<open>n > 10^10\<close>, and \<open>n\<close> otherwise, so \<open>10^10\<close> itself is taken as seconds; the
  date parser has no part in the result, which is the same for every library.
\<close>

theorem to_epoch_numeric:
  assumes "list_all is_decimal (a @ b)" and "a @ b \<noteq> []"
    and "list_all is_space l" and "list_all is_space r"
    and "x = l @ a @ r \<and> b = [] \<or> x = l @ (a @ CHR ''.'' # b) @ r"
  shows "to_epoch L x =
           Inr (let n = round_double (of_int (digits_val a) + of_int (digits_val b) / 10 ^ length b)
                in if Fin (10 ^ 10) < n then div_1000 n else n)"
proof -
  from assms(1) have da: "CHR ''.'' \<notin> set a" and db: "CHR ''.'' \<notin> set b"
    by (auto dest: decimal_no_dot)
  from assms(1) have dig: "list_all is_digit (a @ b)"
    by (auto simp: list_all_iff is_digit_def)
  define s where "s = (if x = l @ a @ r \<and> b = [] then a else a @ CHR ''.'' # b)"
  from assms(5) have x: "x = l @ s @ r" by (auto simp: s_def)
  have ne: "s \<noteq> []" using assms(2) by (auto simp: s_def)
  from assms(1) have all: "list_all (\<lambda>c. is_decimal c \<or> c = CHR ''.'') s"
    by (auto simp: s_def list_all_iff)
  then have nsp: "\<forall>c \<in> set s. \<not> is_space c"
    using decimal_not_space dot_not_space by (auto simp: list_all_iff)
  from ne nsp have "\<not> is_space (hd s)" "\<not> is_space (last s)" by auto
  from strip_pad [OF assms(3,4) ne this] have st: "strip x = s" by (simp add: x)
  have rd: "replace_dot_once s = a @ b"
    using da assms(5) by (auto simp: s_def replace_dot_none replace_dot_first)
  have dv: "decimal_value s = of_int (digits_val a) + of_int (digits_val b) / 10 ^ length b"
    using da assms(5) by (auto simp: s_def decimal_value_int decimal_value_dot digits_val_def)
  from dig assms(2) have "isdigit (replace_dot_once s)"
    by (simp add: rd isdigit_def)
  moreover from all have "float_digits s = Some (round_double (decimal_value s))"
    by (simp add: float_digits_def)
  ultimately show ?thesis
    by (simp add: to_epoch_def st dv Let_def)
qed

theorem to_epoch_numeric_witness:
  "list_all is_decimal (''10000000000'' @ ''0000001'') \<and> ''10000000000'' @ ''0000001'' \<noteq> []
   \<and> list_all is_space '' '' \<and> list_all is_space [CHR 0x09, CHR 0xA0]
   \<and> to_epoch sample_lib ('' '' @ (''10000000000'' @ CHR ''.'' # ''0000001'') @ [CHR 0x09, CHR 0xA0])
       = Inr (Fin 10000000000)
   \<and> to_epoch sample_lib ''10000000000'' = Inr (Fin 10000000000)
   \<and> to_epoch sample_lib ''10000000001'' = Inr (Fin (5368709120536871 / 536870912))
   \<and> to_epoch sample_lib ''10000000000.00001'' = Inr (Fin (5368709120000005 / 536870912))
   \<and> to_epoch sample_lib ''1767285096831'' = Inr (Fin (7412530950778651 / 4194304))
   \<and> to_epoch sample_lib ''1767285096.831'' = Inr (Fin (7412530950778651 / 4194304))"
proof -
  have h1: "list_all is_decimal (''10000000000'' @ ''0000001'')" by code_simp
  have h2: "''10000000000'' @ ''0000001'' \<noteq> []" by simp
  have h3: "list_all is_space '' ''" by code_simp
  have h4: "list_all is_space [CHR 0x09, CHR 0xA0]" by code_simp
  have v: "(let n = round_double (of_int (digits_val ''10000000000'')
                      + of_int (digits_val ''0000001'') / 10 ^ length ''0000001'')
            in if Fin (10 ^ 10) < n then div_1000 n else n) = Fin 10000000000"
    by code_simp
  from to_epoch_numeric [OF h1 h2 h3 h4, of _ sample_lib]
  have e1: "to_epoch sample_lib ('' '' @ (''10000000000'' @ CHR ''.'' # ''0000001'') @ [CHR 0x09, CHR 0xA0])
       = Inr (Fin 10000000000)"
    unfolding v by blast
  have e2: "to_epoch sample_lib ''10000000000'' = Inr (Fin 10000000000)" by code_simp
  have e3: "to_epoch sample_lib ''10000000001'' = Inr (Fin (5368709120536871 / 536870912))"
    by code_simp
  have e4: "to_epoch sample_lib ''10000000000.00001'' = Inr (Fin (5368709120000005 / 536870912))"
    by code_simp
  have e5: "to_epoch sample_lib ''1767285096831'' = Inr (Fin (7412530950778651 / 4194304))"
    by code_simp
  have e6: "to_epoch sample_lib ''1767285096.831'' = Inr (Fin (7412530950778651 / 4194304))"
    by code_simp
  from h1 h2 h3 h4 e1 e2 e3 e4 e5 e6 show ?thesis by blast
qed

text \<open>
  Claim C5, as stated: an unparseable start or end is answered with a client
  error and not with an internal server failure. It fails: the request below,
  whose start the date parser refuses, ends with an exception that nothing
  catches, which is answered with status 500.
\<close>

theorem unparseable_start_counterexample:
  "to_epoch sample_lib ''garbage'' = Inl ParserError
   \<and> http_status (search_reports sample_lib empty_redis (sample_query\<lparr>q_start := ''garbage''\<rparr>))
       = 500
   \<and> \<not> client_error (http_status
          (search_reports sample_lib empty_redis (sample_query\<lparr>q_start := ''garbage''\<rparr>)))"
proof -
  have t: "to_epoch sample_lib ''garbage'' = Inl ParserError"
    by code_simp
  then have "search_reports sample_lib empty_redis (sample_query\<lparr>q_start := ''garbage''\<rparr>)
      = Inl ParserError"
    by (simp add: search_reports_def sample_query_def)
  with t show ?thesis
    by (simp add: http_status_def client_error_def)
qed

text \<open>
  Claim C5, amended. When \<open>to_epoch\<close> raises on the start or on the end value,
  the request computes no result and nothing is defaulted: it ends with an
  exception, and the answer is status 500, an internal server error and not a
  client error.
\<close>

theorem unparseable_time_fails:
  assumes "to_epoch L (q_start q) = Inl e \<or> to_epoch L (q_end q) = Inl e"
  shows "(\<exists>e'. search_reports L st q = Inl e')
         \<and> http_status (search_reports L st q) = 500
         \<and> \<not> client_error (http_status (search_reports L st q))"
proof -
  have "\<exists>e'. search_reports L st q = Inl e'"
  proof (cases "to_epoch L (q_start q)")
    case (Inl a)
    then show ?thesis by (simp add: search_reports_def)
  next
    case (Inr s)
    with assms have "to_epoch L (q_end q) = Inl e" by simp
    with Inr show ?thesis by (simp add: search_reports_def)
  qed
  then show ?thesis by (auto simp: http_status_def client_error_def)
qed

theorem unparseable_time_fails_witness:
  "to_epoch sample_lib (q_end (sample_query\<lparr>q_end := ''next week''\<rparr>)) = Inl ParserError
   \<and> search_reports sample_lib sample_store (sample_query\<lparr>q_end := ''next week''\<rparr>) = Inl ParserError
   \<and> http_status (search_reports sample_lib sample_store (sample_query\<lparr>q_end := ''next week''\<rparr>)) = 500
   \<and> to_epoch sample_lib [CHR ''1'', CHR 0xB2] = Inl ValueError"
proof -
  have h: "to_epoch sample_lib (q_end (sample_query\<lparr>q_end := ''next week''\<rparr>)) = Inl ParserError"
    by code_simp
  have r: "search_reports sample_lib sample_store (sample_query\<lparr>q_end := ''next week''\<rparr>)
      = Inl ParserError"
    by code_simp
  have v: "to_epoch sample_lib [CHR ''1'', CHR 0xB2] = Inl ValueError"
    by code_simp
  from unparseable_time_fails [of sample_lib "sample_query\<lparr>q_end := ''next week''\<rparr>"
      ParserError sample_store] h
  have "http_status (search_reports sample_lib sample_store (sample_query\<lparr>q_end := ''next week''\<rparr>)) = 500"
    by blast
  with h r v show ?thesis by blast
qed

section \<open>Exact filters\<close>

text \<open>\<^verbatim>\<open>str()\<close> writes an integer as its decimal numeral.\<close>

lemma upt_Suc_shift: "[0 ..< Suc k] = 0 # map Suc [0 ..< k]"
  by (simp add: upt_rec [of 0 "Suc k"] map_Suc_upt del: upt_Suc)

lemma str_nat_decimal: "str_nat n = decimal_nat n"
proof (induction n rule: str_nat.induct)
  case (1 n)
  show ?case
  proof (cases "n < 10")
    case True
    then have "ndigits n = 1" by (subst ndigits.simps) simp
    with True show ?thesis
      by (subst str_nat.simps) (simp add: decimal_nat_def)
  next
    case False
    let ?k = "ndigits (n div 10)"
    from False have nd: "ndigits n = Suc ?k" by (subst ndigits.simps) simp
    from False "1.IH" have ih: "str_nat (n div 10) = decimal_nat (n div 10)" by simp
    have shift: "\<And>i. n div 10 ^ Suc i mod 10 = n div 10 div 10 ^ i mod 10"
      by (simp add: div_mult2_eq)
    have "decimal_nat n = map (\<lambda>i. digit_char (n div 10 ^ i mod 10)) (rev (0 # map Suc [0 ..< ?k]))"
      unfolding decimal_nat_def nd upt_Suc_shift ..
    also have "\<dots> = map (\<lambda>i. digit_char (n div 10 ^ Suc i mod 10)) (rev [0 ..< ?k])
        @ [digit_char (n mod 10)]"
      by (simp add: rev_map comp_def)
    also have "\<dots> = decimal_nat (n div 10) @ [digit_char (n mod 10)]"
      unfolding shift decimal_nat_def ..
    finally have "decimal_nat n = decimal_nat (n div 10) @ [digit_char (n mod 10)]" .
    with False ih show ?thesis
      by (subst str_nat.simps) simp
  qed
qed

lemma str_int_decimal: "str_int i = decimal i"
  by (simp add: str_int_def decimal_def str_nat_decimal)


lemma wanted_given: "wanted kind v = (if given v then [(kind, the v)] else [])"
  by (cases v) (simp_all add: wanted_def given_def)

lemma candidates_of_fold:
  "candidates_of st q ids =
     fold (\<lambda>(kind, v). intersect st (q_prefix q) kind v) (supplied q) (set ids)"
proof (cases "q_status q")
  case None
  then show ?thesis
    by (simp add: candidates_of_def supplied_def wanted_given Let_def)
next
  case (Some n)
  then show ?thesis
    by (simp add: candidates_of_def supplied_def wanted_given Let_def str_int_decimal)
qed



section \<open>The loop over the ordered ids\<close>

lemma starts_with_iff: "starts_with x s \<longleftrightarrow> (\<exists>y. s = x @ y)"
proof (induction x arbitrary: s)
  case Nil
  then show ?case by simp
next
  case (Cons c cs)
  then show ?case by (cases s) auto
qed

text \<open>\<^verbatim>\<open>sub in s\<close> holds exactly when \<open>sub\<close> occurs in \<open>s\<close>.\<close>

lemma contains_substring: "contains sub s \<longleftrightarrow> substring sub s"
proof (induction s)
  case Nil
  show ?case by (auto simp: substring_def)
next
  case (Cons c cs)
  have "substring sub (c # cs) \<longleftrightarrow> starts_with sub (c # cs) \<or> substring sub cs"
  proof
    assume "substring sub (c # cs)"
    then obtain a b where ab: "c # cs = a @ sub @ b" by (auto simp: substring_def)
    show "starts_with sub (c # cs) \<or> substring sub cs"
    proof (cases a)
      case Nil
      with ab show ?thesis unfolding starts_with_iff by auto
    next
      case (Cons c' a')
      with ab have "cs = a' @ sub @ b" by simp
      then show ?thesis by (auto simp: substring_def)
    qed
  next
    assume "starts_with sub (c # cs) \<or> substring sub cs"
    then show "substring sub (c # cs)"
    proof
      assume "starts_with sub (c # cs)"
      then obtain b where "c # cs = [] @ sub @ b" unfolding starts_with_iff by auto
      then show ?thesis unfolding substring_def by blast
    next
      assume "substring sub cs"
      then obtain a b where "cs = a @ sub @ b" by (auto simp: substring_def)
      then have "c # cs = (c # a) @ sub @ b" by simp
      then show ?thesis unfolding substring_def by blast
    qed
  qed
  with Cons show ?case by simp
qed

lemma substring_code [code]: "substring sub s = contains sub s"
  by (simp add: contains_substring)

lemma passes_iff: "passes L q obj \<longleftrightarrow> url_ok L q obj \<and> ua_ok L q obj"
  by (auto simp: passes_def url_ok_def ua_ok_def given_def contains_substring
      split: option.splits)

lemma fetch_skip:
  "\<not> kept L st q rid \<Longrightarrow> fetch L st q (rid # rest) = Inr rs \<Longrightarrow> fetch L st q rest = Inr rs"
  by (auto simp: kept_def passes_iff split: option.splits if_splits json.splits sum.splits)

lemma fetch_keep:
  "kept L st q rid \<Longrightarrow> fetch L st q (rid # rest) = Inr rs \<Longrightarrow>
     \<exists>r rs'. rs = r # rs' \<and> yields L st q rid r \<and> fetch L st q rest = Inr rs'"
  by (auto simp: kept_def passes_iff yields_def split: option.splits if_splits json.splits sum.splits)

lemma fetch_Inr:
  "fetch L st q ids = Inr rs \<Longrightarrow> list_all2 (yields L st q) (filter (kept L st q) ids) rs"
proof (induction ids arbitrary: rs)
  case Nil
  then show ?case by simp
next
  case (Cons rid rest)
  show ?case
  proof (cases "kept L st q rid")
    case True
    from fetch_keep [OF True Cons.prems] obtain r rs'
      where "rs = r # rs'" "yields L st q rid r" "fetch L st q rest = Inr rs'" by blast
    with Cons.IH [of rs'] True show ?thesis by simp
  next
    case False
    from fetch_skip [OF False Cons.prems] Cons.IH [of rs] False show ?thesis by simp
  qed
qed

lemma length_slice_to: "0 \<le> limit \<Longrightarrow> length (slice_to limit xs) \<le> nat limit"
  by (simp add: slice_to_def)

lemma search_reports_Inr:
  assumes "search_reports L st q = Inr res"
  shows "\<exists>s e. to_epoch L (q_start q) = Inr s \<and> to_epoch L (q_end q) = Inr e
           \<and> fetch L st q (ordered_ids st q s e) = Inr (results res)
           \<and> count res = length (results res)"
  using assms by (auto simp: search_reports_def split: sum.splits)

section \<open>Substring filters\<close>

lemma lower_capital_e_acute: "lower [CHR 0xC9, CHR ''T'', CHR 0xC9] = [CHR 0xE9, CHR ''t'', CHR 0xE9]"
  by code_simp

lemma length_ordered_ids: "0 \<le> q_limit q \<Longrightarrow> length (ordered_ids st q s e) \<le> nat (q_limit q)"
  by (simp add: ordered_ids_def Let_def length_slice_to)

text \<open>
  Claim C7. The results of a search are the records of those ids of the
  truncated list \<open>ordered_ids\<close> (the time- and set-filtered ids, cut to
  \<open>limit\<close>) whose record passes the substring filters: \<open>url_contains\<close> occurs
  in the url as written and \<open>ua_contains\<close> occurs in the user agent once both
  are in lower case. So for a limit that is not negative the count is at most
  the limit. The count can stay below the limit while a record beyond the cut
  matches everything: with limit 1 and \<open>url_contains = admin\<close> on the sample
  store, newest first, the only id kept by the cut is \<open>b\<close>, whose url does not
  match, and the count is 0 although \<open>a\<close> is in the window and passes the
  filters. With \<open>ua_contains = CURL\<close> the records of \<open>c\<close> and \<open>a\<close> are dropped
  and that of \<open>b\<close>, user agent \<open>curl/8.0\<close>, is kept; with
  \<open>url_contains = ADMIN\<close> nothing is kept.
\<close>

theorem substring_filters_after_limit:
  "(\<forall>res. search_reports L st q = Inr res \<longrightarrow>
      (\<exists>s e. to_epoch L (q_start q) = Inr s \<and> to_epoch L (q_end q) = Inr e
         \<and> list_all2 (yields L st q) (filter (kept L st q) (ordered_ids st q s e)) (results res))
      \<and> count res = length (results res)
      \<and> (0 \<le> q_limit q \<longrightarrow> count res \<le> nat (q_limit q)))
   \<and> search_reports sample_lib sample_store
        (sample_query\<lparr>q_url_contains := Some ''admin'', q_limit := 1\<rparr>)
       = Inr \<lparr>count = 0, top_ips = [], top_urls = [], top_reasons = [], results = []\<rparr>
   \<and> ordered_ids sample_store
        (sample_query\<lparr>q_url_contains := Some ''admin'', q_limit := 1\<rparr>) (Fin 0) (Fin 9999) = [''b'']
   \<and> ''a'' \<in> set (zrangebyscore sample_store (z_ts ''bw_idx'') (Fin 0) (Fin 9999))
   \<and> kept sample_lib sample_store
        (sample_query\<lparr>q_url_contains := Some ''admin'', q_limit := 1\<rparr>) ''a''
   \<and> search_reports sample_lib sample_store (sample_query\<lparr>q_ua_contains := Some ''CURL''\<rparr>)
       = Inr \<lparr>count = 1, top_ips = [(JStr ''5.6.7.8'', 1)], top_urls = [(JStr ''/index'', 1)],
              top_reasons = [], results = [set_item doc_b ''_date_human'' (JStr ''T'')]\<rparr>
   \<and> search_reports sample_lib sample_store (sample_query\<lparr>q_url_contains := Some ''ADMIN''\<rparr>)
       = Inr \<lparr>count = 0, top_ips = [], top_urls = [], top_reasons = [], results = []\<rparr>"
proof -
  have general: "\<forall>res. search_reports L st q = Inr res \<longrightarrow>
      (\<exists>s e. to_epoch L (q_start q) = Inr s \<and> to_epoch L (q_end q) = Inr e
         \<and> list_all2 (yields L st q) (filter (kept L st q) (ordered_ids st q s e)) (results res))
      \<and> count res = length (results res)
      \<and> (0 \<le> q_limit q \<longrightarrow> count res \<le> nat (q_limit q))"
  proof (intro allI impI)
    fix res
    assume "search_reports L st q = Inr res"
    from search_reports_Inr [OF this] obtain s e where
      se: "to_epoch L (q_start q) = Inr s" "to_epoch L (q_end q) = Inr e"
      and f: "fetch L st q (ordered_ids st q s e) = Inr (results res)"
      and c: "count res = length (results res)" by blast
    from fetch_Inr [OF f]
    have la: "list_all2 (yields L st q) (filter (kept L st q) (ordered_ids st q s e)) (results res)" .
    then have len: "length (results res) = length (filter (kept L st q) (ordered_ids st q s e))"
      by (simp add: list_all2_lengthD)
    have "0 \<le> q_limit q \<longrightarrow> count res \<le> nat (q_limit q)"
    proof
      assume "0 \<le> q_limit q"
      then have "length (ordered_ids st q s e) \<le> nat (q_limit q)"
        by (rule length_ordered_ids)
      moreover have "length (filter (kept L st q) (ordered_ids st q s e))
          \<le> length (ordered_ids st q s e)" by simp
      ultimately show "count res \<le> nat (q_limit q)" using c len by linarith
    qed
    with se la c show "(\<exists>s e. to_epoch L (q_start q) = Inr s \<and> to_epoch L (q_end q) = Inr e
         \<and> list_all2 (yields L st q) (filter (kept L st q) (ordered_ids st q s e)) (results res))
      \<and> count res = length (results res)
      \<and> (0 \<le> q_limit q \<longrightarrow> count res \<le> nat (q_limit q))" by blast
  qed
  have e1: "search_reports sample_lib sample_store
        (sample_query\<lparr>q_url_contains := Some ''admin'', q_limit := 1\<rparr>)
       = Inr \<lparr>count = 0, top_ips = [], top_urls = [], top_reasons = [], results = []\<rparr>"
    by code_simp
  have e2: "ordered_ids sample_store
        (sample_query\<lparr>q_url_contains := Some ''admin'', q_limit := 1\<rparr>) (Fin 0) (Fin 9999) = [''b'']"
    by code_simp
  have e3: "''a'' \<in> set (zrangebyscore sample_store (z_ts ''bw_idx'') (Fin 0) (Fin 9999))"
    by code_simp
  have e4: "kept sample_lib sample_store
        (sample_query\<lparr>q_url_contains := Some ''admin'', q_limit := 1\<rparr>) ''a''"
    by code_simp
  have e5: "search_reports sample_lib sample_store (sample_query\<lparr>q_ua_contains := Some ''CURL''\<rparr>)
       = Inr \<lparr>count = 1, top_ips = [(JStr ''5.6.7.8'', 1)], top_urls = [(JStr ''/index'', 1)],
              top_reasons = [], results = [set_item doc_b ''_date_human'' (JStr ''T'')]\<rparr>"
    by code_simp
  have e6: "search_reports sample_lib sample_store (sample_query\<lparr>q_url_contains := Some ''ADMIN''\<rparr>)
       = Inr \<lparr>count = 0, top_ips = [], top_urls = [], top_reasons = [], results = []\<rparr>"
    by code_simp
  from general e1 e2 e3 e4 e5 e6 show ?thesis by blast
qed

theorem substring_filters_after_limit_witness:
  "search_reports sample_lib sample_store (sample_query\<lparr>q_url_contains := Some ''admin''\<rparr>)
     = Inr \<lparr>count = 1, top_ips = [(JStr ''1.2.3.4'', 1)], top_urls = [(JStr ''/admin'', 1)],
            top_reasons = [], results = [set_item doc_a ''_date_human'' (JStr ''T'')]\<rparr>
   \<and> 0 \<le> q_limit (sample_query\<lparr>q_url_contains := Some ''admin''\<rparr>)
   \<and> (1::nat) \<le> nat (q_limit (sample_query\<lparr>q_url_contains := Some ''admin''\<rparr>))"
proof -
  let ?q = "sample_query\<lparr>q_url_contains := Some ''admin''\<rparr>"
  let ?r = "\<lparr>count = 1, top_ips = [(JStr ''1.2.3.4'', 1)], top_urls = [(JStr ''/admin'', 1)],
            top_reasons = [], results = [set_item doc_a ''_date_human'' (JStr ''T'')]\<rparr>"
  have r: "search_reports sample_lib sample_store ?q = Inr ?r"
    by code_simp
  have l: "0 \<le> q_limit ?q"
    by (simp add: sample_query_def)
  from substring_filters_after_limit [of sample_lib sample_store ?q] r l
  have "count ?r \<le> nat (q_limit ?q)" by blast
  with r l show ?thesis by simp
qed

section \<open>The commands that the two passes queue\<close>

lemma execute_append:
  "execute (a @ b) st =
     (let (st1, r1) = execute a st; (st2, r2) = execute b st1 in (st2, r1 @ r2))"
  by (induction a arbitrary: st) (auto simp: Let_def split: prod.splits)

lemma fst_execute_append: "fst (execute (a @ b) st) = fst (execute b (fst (execute a st)))"
  by (simp add: execute_append Let_def split: prod.splits)

lemma fst_execute_Cons: "fst (execute (c # cs) st) = fst (execute cs (fst (exec_cmd c st)))"
  by (simp add: Let_def split: prod.splits)

lemma preserves_Nil: "preserves P []"
  by (simp add: preserves_def)

lemma preserves_append: "preserves P a \<Longrightarrow> preserves P b \<Longrightarrow> preserves P (a @ b)"
  by (simp add: preserves_def fst_execute_append)

lemma preserves_concat: "(\<And>g. g \<in> set gs \<Longrightarrow> preserves P g) \<Longrightarrow> preserves P (concat gs)"
  by (induction gs) (auto simp: preserves_Nil preserves_append)

lemma fst_execute_single: "fst (execute [c] st) = fst (exec_cmd c st)"
  by (simp add: Let_def split: prod.splits)

lemma preserves_single:
  "(\<And>st. P st \<Longrightarrow> P (fst (exec_cmd c st))) \<Longrightarrow> preserves P [c]"
  unfolding preserves_def fst_execute_single by simp

lemma preserves_each:
  "(\<And>c st. c \<in> set cs \<Longrightarrow> P st \<Longrightarrow> P (fst (exec_cmd c st))) \<Longrightarrow> preserves P cs"
proof (induction cs)
  case Nil
  then show ?case by (simp add: preserves_Nil)
next
  case (Cons c cs)
  have "preserves P [c]" using Cons.prems by (intro preserves_single) simp
  moreover have "preserves P cs" using Cons by simp
  ultimately show ?case using preserves_append [of P "[c]" cs] by simp
qed

lemma admit_Some:
  "admit L p ttl items (ps, cs, c) = Some (ps', cs', c') \<Longrightarrow>
     ps' = ps @ List.map_filter (parse_entry L) items
     \<and> cs' = cs @ map (seen_cmd L p ttl) (List.map_filter (parse_entry L) items)
     \<and> new_count c' = new_count c \<and> no_date c' = no_date c
     \<and> (\<forall>raw \<in> set items. decodable L raw)"
proof (induction items arbitrary: ps cs c)
  case Nil
  then show ?case by (simp add: List.map_filter_simps)
next
  case (Cons raw items)
  show ?case
  proof (cases "json_loads L raw")
    case None
    with Cons.prems Cons.IH [of ps cs "c\<lparr>bad_json := bad_json c + 1\<rparr>"]
    show ?thesis by (simp add: List.map_filter_simps parse_entry_def decodable_def)
  next
    case (Some doc)
    show ?thesis
    proof (cases doc)
      case (JObj obj)
      show ?thesis
      proof (cases "py_truthy (get obj ''id'')")
        case True
        with Some JObj Cons.prems
          Cons.IH [of "ps @ [(get obj ''id'', obj, raw)]"
            "cs @ [SetNX (seen_key p (py_str L (get obj ''id''))) ''1'' (if ttl_on ttl then ttl else None)]" c]
        show ?thesis
          by (simp add: List.map_filter_simps parse_entry_def decodable_def seen_cmd_def Let_def)
      next
        case False
        with Some JObj Cons.prems Cons.IH [of ps cs "c\<lparr>no_id := no_id c + 1\<rparr>"]
        show ?thesis
          by (simp add: List.map_filter_simps parse_entry_def decodable_def Let_def)
      qed
    qed (use Some Cons.prems in simp_all)
  qed
qed

lemma admit_total:
  "(\<forall>raw \<in> set items. decodable L raw) \<Longrightarrow> \<exists>r. admit L p ttl items acc = Some r"
proof (induction items arbitrary: acc)
  case Nil
  show ?case by (rule exI [of _ acc]) simp
next
  case (Cons raw items)
  obtain ps cs c where acc: "acc = (ps, cs, c)" using prod_cases3 by blast
  from Cons.prems have d: "decodable L raw" and rest: "\<forall>raw \<in> set items. decodable L raw" by simp_all
  from d Cons.IH [OF rest] show ?case
    unfolding acc by (auto simp: decodable_def Let_def split: option.splits json.splits)
qed

lemma encode_Some: "encode rid = Some m \<Longrightarrow> rid = JStr m"
  by (cases rid) simp_all

lemma member_of_Some: "member_of L rid = Some m \<Longrightarrow> m = py_str L rid"
  by (cases rid) simp_all

lemma index_attrs_Some:
  "index_attrs L p ttl rid obj fs cs = Some cs' \<Longrightarrow>
     cs' = cs @ attr_cmds ttl (py_str L rid) (attr_keys L p obj fs)"
proof (induction fs arbitrary: cs)
  case Nil
  then show ?case by (simp add: attr_cmds_def attr_keys_def)
next
  case (Cons kf fs)
  obtain kind field where kf: "kf = (kind, field)" by (cases kf) auto
  show ?case
  proof (cases "get obj field = JNull \<or> get obj field = JStr []")
    case True
    with Cons.prems Cons.IH [of cs] show ?thesis
      unfolding kf by (auto simp: attr_cmds_def attr_keys_def Let_def)
  next
    case False
    with Cons.prems obtain m where m: "encode rid = Some m"
      unfolding kf by (auto simp: Let_def split: option.splits)
    then have rid: "py_str L rid = m" by (auto dest: encode_Some)
    from False m Cons.prems
    have "index_attrs L p ttl rid obj fs
            (cs @ [SAdd (set_key p kind (py_str L (get obj field))) m] @
              (if ttl_on ttl then [Expire (set_key p kind (py_str L (get obj field))) (the ttl)] else []))
          = Some cs'"
      unfolding kf by (simp add: Let_def)
    from Cons.IH [OF this] False show ?thesis
      unfolding kf by (simp add: attr_cmds_def attr_keys_def exp_cmds_def rid)
  qed
qed

lemma commit_Some:
  "commit L p ttl xs (cs, c) = Some (cs', c') \<Longrightarrow>
     cs' = cs @ concat (map (entry_cmds L p ttl) (List.map_filter (commit_entry L) xs))
     \<and> new_count c' = new_count c + length (List.map_filter (commit_entry L) xs)
     \<and> bad_json c' = bad_json c \<and> no_id c' = no_id c"
proof (induction xs arbitrary: cs c)
  case Nil
  then show ?case by (simp add: List.map_filter_simps)
next
  case (Cons x xs)
  obtain rid obj raw is_new where x: "x = ((rid, obj, raw), is_new)" by (cases x) auto
  show ?case
  proof (cases is_new)
    case False
    with Cons.prems Cons.IH [of cs c] show ?thesis
      unfolding x by (simp add: List.map_filter_simps commit_entry_def)
  next
    case True
    show ?thesis
    proof (cases "py_float L (get obj ''date'')")
      case (Inl e)
      with True Cons.prems Cons.IH [of cs "c\<lparr>no_date := no_date c + 1\<rparr>"] show ?thesis
        unfolding x by (simp add: List.map_filter_simps commit_entry_def)
    next
      case (Inr ts)
      with True Cons.prems obtain m where m: "member_of L rid = Some m"
        unfolding x by (auto simp: Let_def split: option.splits)
      then have ms: "m = py_str L rid" by (rule member_of_Some)
      let ?k = "req_key p (py_str L rid)"
      let ?p1 = "cs @ [SetStr ?k raw] @ (if ttl_on ttl then [Expire ?k (the ttl)] else [])"
      from True Inr m Cons.prems obtain p2 where
        p2: "index_attrs L p ttl rid obj index_fields (?p1 @ [ZAdd (z_ts p) m ts]) = Some p2"
        and rest: "commit L p ttl xs (p2, c\<lparr>new_count := new_count c + 1\<rparr>) = Some (cs', c')"
        unfolding x by (auto simp: Let_def split: option.splits)
      from index_attrs_Some [OF p2]
      have p2eq: "p2 = cs @ entry_cmds L p ttl (py_str L rid, raw, ts, obj)"
        by (simp add: entry_cmds_def record_cmds_def exp_cmds_def ms)
      from Cons.IH [OF rest] True Inr show ?thesis
        unfolding x p2eq by (simp add: List.map_filter_simps commit_entry_def)
    qed
  qed
qed

section \<open>One chunk\<close>

lemma parse_entry_Some:
  "parse_entry L raw = Some (rid, obj, raw') \<Longrightarrow>
     raw' = raw \<and> json_loads L raw = Some (JObj obj) \<and> rid = get obj ''id'' \<and> py_truthy rid"
  by (auto simp: parse_entry_def split: option.splits json.splits if_splits)

lemma set_map_filter: "set (List.map_filter f xs) = {y. \<exists>x \<in> set xs. f x = Some y}"
  by (induction xs) (auto simp: List.map_filter_simps split: option.splits)

lemma execute_marks:
  "execute (map (seen_cmd L p ttl) ps) st = (st1, rs) \<Longrightarrow>
     length rs = length ps
     \<and> (\<forall>x. (x, True) \<in> set (zip ps rs) \<longrightarrow> seen_key p (py_str L (fst x)) \<notin> dom (strings st))
     \<and> (\<forall>x \<in> set ps. seen_key p (py_str L (fst x)) \<in> dom (strings st1))
     \<and> (\<forall>k \<in> dom (strings st). strings st1 k = strings st k)
     \<and> zsets st1 = zsets st \<and> sets st1 = sets st"
proof (induction ps arbitrary: st rs st1)
  case Nil
  then show ?case by simp
next
  case (Cons x ps)
  let ?k = "seen_key p (py_str L (fst x))"
  obtain st' r where e: "exec_cmd (seen_cmd L p ttl x) st = (st', r)" by (cases "exec_cmd (seen_cmd L p ttl x) st") auto
  obtain st2 rs' where e2: "execute (map (seen_cmd L p ttl) ps) st' = (st2, rs')"
    by (cases "execute (map (seen_cmd L p ttl) ps) st'") auto
  from Cons.prems e e2 have eq: "st1 = st2" "rs = r # rs'" by (auto simp: Let_def)
  from e have r: "r = (?k \<notin> dom (strings st))"
    and d: "dom (strings st') = insert ?k (dom (strings st))"
    and same: "\<forall>k \<in> dom (strings st). strings st' k = strings st k"
    and z: "zsets st' = zsets st" "sets st' = sets st"
    by (auto simp: seen_cmd_def split: if_splits)
  from Cons.IH [OF e2] have ih:
    "length rs' = length ps"
    "\<forall>y. (y, True) \<in> set (zip ps rs') \<longrightarrow> seen_key p (py_str L (fst y)) \<notin> dom (strings st')"
    "\<forall>y \<in> set ps. seen_key p (py_str L (fst y)) \<in> dom (strings st2)"
    "\<forall>k \<in> dom (strings st'). strings st2 k = strings st' k"
    "zsets st2 = zsets st'" "sets st2 = sets st'" by simp_all
  have "?k \<in> dom (strings st2)"
    using ih(4) d by (metis domIff insertI1)
  with ih d same z r show ?case
    unfolding eq by (auto simp: domIff)
qed


section \<open>One chunk\<close>

lemma process_chunk_unfold:
  assumes a: "admit L p ttl items ([], [], c) = Some (parsed, p1, c1)"
  shows "process_chunk L p ttl items (st, c) =
      (case (if parsed \<noteq> [] then execute p1 st else (st, [])) of (st1, is_new_list) \<Rightarrow>
         (case commit L p ttl (zip parsed is_new_list) ([], c1) of
            None \<Rightarrow> (st1, None)
          | Some (p2, c2) \<Rightarrow>
              if new_count c2 \<noteq> 0
              then (fst (execute p2 st1), if raises p2 then None else Some c2)
              else (st1, Some c2)))"
  unfolding process_chunk_def
  apply (simp only: fst_conv snd_conv a)
  apply (simp only: option.case prod.case)
  apply (simp only: Let_def)
  done

lemma process_chunk_aborted:
  "admit L p ttl items ([], [], c) = None \<Longrightarrow> process_chunk L p ttl items (st, c) = (st, None)"
  by (simp add: process_chunk_def)

text \<open>
  Once the first pass has gone through, the markers are set; the outcome of
  the chunk is then that of the second pass.
\<close>

lemma process_chunk_admitted:
  assumes a: "admit L p ttl items ([], [], c) = Some (parsed, p1, c1)"
  shows "parsed = List.map_filter (parse_entry L) items
         \<and> new_count c1 = new_count c \<and> no_date c1 = no_date c
         \<and> (\<forall>raw \<in> set items. decodable L raw)
         \<and> process_chunk L p ttl items (st, c) =
             (case commit L p ttl (zip parsed (snd (execute (marks L p ttl items) st))) ([], c1) of
                None \<Rightarrow> (fst (execute (marks L p ttl items) st), None)
              | Some (p2, c2) \<Rightarrow>
                  if new_count c2 \<noteq> 0
                  then (fst (execute p2 (fst (execute (marks L p ttl items) st))),
                        if raises p2 then None else Some c2)
                  else (fst (execute (marks L p ttl items) st), Some c2))"
proof -
  from admit_Some [OF a] have
    parsed: "parsed = List.map_filter (parse_entry L) items"
    and p1: "p1 = marks L p ttl items"
    and c1: "new_count c1 = new_count c" "no_date c1 = no_date c"
    and dec: "\<forall>raw \<in> set items. decodable L raw"
    by (simp_all add: marks_def)
  define X where "X = (if parsed \<noteq> [] then execute p1 st else (st, []))"
  obtain st1 rs where X: "X = (st1, rs)" by (cases X) auto
  have e1: "execute p1 st = (st1, rs)"
  proof (cases "parsed = []")
    case True
    with parsed p1 X show ?thesis by (simp add: X_def marks_def)
  next
    case False
    with X show ?thesis by (simp add: X_def)
  qed
  have eqn: "process_chunk L p ttl items (st, c) =
      (case commit L p ttl (zip parsed rs) ([], c1) of
         None \<Rightarrow> (st1, None)
       | Some (p2, c2) \<Rightarrow>
           if new_count c2 \<noteq> 0
           then (fst (execute p2 st1), if raises p2 then None else Some c2)
           else (st1, Some c2))"
    using process_chunk_unfold [OF a, of st] X unfolding X_def by (simp only: prod.case)
  have rs: "rs = snd (execute (marks L p ttl items) st)"
    and st1: "st1 = fst (execute (marks L p ttl items) st)"
    using e1 p1 by simp_all
  from eqn have "process_chunk L p ttl items (st, c) =
             (case commit L p ttl (zip parsed (snd (execute (marks L p ttl items) st))) ([], c1) of
                None \<Rightarrow> (fst (execute (marks L p ttl items) st), None)
              | Some (p2, c2) \<Rightarrow>
                  if new_count c2 \<noteq> 0
                  then (fst (execute p2 (fst (execute (marks L p ttl items) st))),
                        if raises p2 then None else Some c2)
                  else (fst (execute (marks L p ttl items) st), Some c2))"
    unfolding rs st1 .
  with parsed c1 dec show ?thesis by blast
qed

lemma commit_committed:
  assumes "commit L p ttl (zip (List.map_filter (parse_entry L) items)
             (snd (execute (marks L p ttl items) st))) ([], c1) = Some (p2, c2)"
  shows "p2 = commits L p ttl items st
         \<and> new_count c2 = new_count c1 + length (committed L p ttl items st)"
  using commit_Some [OF assms] by (simp add: commits_def committed_def)

lemma commits_Nil: "committed L p ttl items st = [] \<Longrightarrow> commits L p ttl items st = []"
  by (simp add: commits_def)

text \<open>The store that a chunk leaves, whatever its outcome.\<close>

lemma process_chunk_store:
  "fst (process_chunk L p ttl items (st, c)) = st
   \<or> fst (process_chunk L p ttl items (st, c)) = fst (execute (marks L p ttl items) st)
   \<or> fst (process_chunk L p ttl items (st, c))
       = fst (execute (commits L p ttl items st) (fst (execute (marks L p ttl items) st)))"
proof (cases "admit L p ttl items ([], [], c)")
  case None
  then show ?thesis by (simp add: process_chunk_aborted)
next
  case (Some a)
  obtain parsed p1 c1 where a: "a = (parsed, p1, c1)" using prod_cases3 by blast
  from Some a have ad: "admit L p ttl items ([], [], c) = Some (parsed, p1, c1)" by simp
  note pa = process_chunk_admitted [OF ad, of st]
  from pa have parsed: "parsed = List.map_filter (parse_entry L) items" by blast
  show ?thesis
  proof (cases "commit L p ttl (zip parsed (snd (execute (marks L p ttl items) st))) ([], c1)")
    case None
    with pa show ?thesis by simp
  next
    case (Some b)
    obtain p2 c2 where b: "b = (p2, c2)" by (cases b)
    from Some b have cm: "commit L p ttl (zip parsed (snd (execute (marks L p ttl items) st))) ([], c1)
        = Some (p2, c2)" by simp
    from commit_committed [OF cm [unfolded parsed]] have p2: "p2 = commits L p ttl items st" by blast
    from pa cm p2 show ?thesis by (simp split: if_splits)
  qed
qed

lemma process_chunk_Some:
  assumes "process_chunk L p ttl items (st, c) = (st', Some c')"
  shows "st' = fst (execute (commits L p ttl items st) (fst (execute (marks L p ttl items) st)))
         \<and> new_count c' = new_count c + length (committed L p ttl items st)
         \<and> (\<forall>raw \<in> set items. decodable L raw)"
proof -
  from assms obtain parsed p1 c1 where
    a: "admit L p ttl items ([], [], c) = Some (parsed, p1, c1)"
    by (cases "admit L p ttl items ([], [], c)") (auto simp: process_chunk_aborted)
  note pa = process_chunk_admitted [OF a, of st]
  from pa have parsed: "parsed = List.map_filter (parse_entry L) items"
    and c1: "new_count c1 = new_count c"
    and dec: "\<forall>raw \<in> set items. decodable L raw" by blast+
  from pa assms obtain p2 c2 where
    cm: "commit L p ttl (zip parsed (snd (execute (marks L p ttl items) st))) ([], c1) = Some (p2, c2)"
    by (cases "commit L p ttl (zip parsed (snd (execute (marks L p ttl items) st))) ([], c1)") auto
  from commit_committed [OF cm [unfolded parsed]] have
    p2: "p2 = commits L p ttl items st"
    and n: "new_count c2 = new_count c1 + length (committed L p ttl items st)" by blast+
  from pa assms cm have
    res: "st' = (if new_count c2 \<noteq> 0 then fst (execute p2 (fst (execute (marks L p ttl items) st)))
                 else fst (execute (marks L p ttl items) st))" "c' = c2"
    by (simp_all split: if_splits)
  have "st' = fst (execute p2 (fst (execute (marks L p ttl items) st)))"
  proof (cases "new_count c2 = 0")
    case True
    with n have "committed L p ttl items st = []" by simp
    then have "p2 = []" by (simp add: p2 commits_Nil)
    with res(1) True show ?thesis by simp
  next
    case False
    with res(1) show ?thesis by simp
  qed
  then have A: "st' = fst (execute (commits L p ttl items st) (fst (execute (marks L p ttl items) st)))"
    unfolding p2 .
  from n c1 res(2) have B: "new_count c' = new_count c + length (committed L p ttl items st)"
    by simp
  from A B dec show ?thesis by blast
qed

lemma commit_entry_Some:
  "commit_entry L ((rid, obj, raw), r) = Some e \<Longrightarrow>
     r \<and> (\<exists>ts. py_float L (get obj ''date'') = Inr ts \<and> e = (py_str L rid, raw, ts, obj))"
  by (auto simp: commit_entry_def split: if_splits sum.splits)

lemma committed_entries:
  assumes "e \<in> set (committed L p ttl items st)"
  shows "sound_entry L e \<and> seen_key p (fst e) \<notin> dom (strings st)"
proof -
  let ?ps = "List.map_filter (parse_entry L) items"
  obtain st1 rs where ex: "execute (map (seen_cmd L p ttl) ?ps) st = (st1, rs)"
    by (cases "execute (map (seen_cmd L p ttl) ?ps) st") auto
  from assms obtain x where x: "x \<in> set (zip ?ps rs)" and ce: "commit_entry L x = Some e"
    by (auto simp: committed_def marks_def ex set_map_filter)
  obtain y r where xy: "x = (y, r)" by (cases x)
  obtain rid obj raw where "y = (rid, obj, raw)" using prod_cases3 by blast
  with xy have xe: "x = ((rid, obj, raw), r)" by simp
  from commit_entry_Some [OF ce [unfolded xe]] obtain ts where
    r: "r" and f: "py_float L (get obj ''date'') = Inr ts" and e: "e = (py_str L rid, raw, ts, obj)"
    by blast
  from x xe have "(rid, obj, raw) \<in> set ?ps" by (auto dest: set_zip_leftD)
  then obtain raw0 where "parse_entry L raw0 = Some (rid, obj, raw)"
    by (auto simp: set_map_filter)
  from parse_entry_Some [OF this] have j: "json_loads L raw = Some (JObj obj)" by simp
  from x xe r have "((rid, obj, raw), True) \<in> set (zip ?ps rs)" by simp
  with execute_marks [OF ex]
  have "seen_key p (py_str L (fst (rid, obj, raw))) \<notin> dom (strings st)" by blast
  with j f e show ?thesis by (simp add: sound_entry_def)
qed

lemma process_chunk_invariant:
  assumes mark: "\<And>x s. P s \<Longrightarrow> P (fst (exec_cmd (seen_cmd L p ttl x) s))"
    and grp: "\<And>e. sound_entry L e \<Longrightarrow> seen_key p (fst e) \<notin> dom (strings st)
                \<Longrightarrow> preserves P (entry_cmds L p ttl e)"
    and P: "P st"
  shows "P (fst (process_chunk L p ttl items (st, c)))"
proof -
  have "preserves P (marks L p ttl items)"
    unfolding marks_def by (rule preserves_each) (auto intro: mark)
  with P have P1: "P (fst (execute (marks L p ttl items) st))"
    by (simp add: preserves_def)
  have "preserves P (commits L p ttl items st)"
    unfolding commits_def
    by (rule preserves_concat) (auto dest!: committed_entries intro: grp)
  with P1 have "P (fst (execute (commits L p ttl items st) (fst (execute (marks L p ttl items) st))))"
    by (simp add: preserves_def)
  with P P1 process_chunk_store [of L p ttl items st c] show ?thesis by auto
qed

lemma run_chunks_step:
  assumes "\<not> (chunk = 0 \<or> length src \<le> start)"
    and "lrange src start (min (start + chunk - 1) (length src - 1)) \<noteq> []"
  shows "run_chunks L p ttl chunk src start s =
           (case process_chunk L p ttl (lrange src start (min (start + chunk - 1) (length src - 1))) s of
              (st', None) \<Rightarrow> (st', None)
            | (st', Some c') \<Rightarrow> run_chunks L p ttl chunk src (start + chunk) (st', c'))"
  using assms by (subst run_chunks.simps) (simp add: Let_def)

lemma run_chunks_stop:
  assumes "chunk = 0 \<or> length src \<le> start
           \<or> lrange src start (min (start + chunk - 1) (length src - 1)) = []"
  shows "run_chunks L p ttl chunk src start s = (fst s, Some (snd s))"
  using assms by (subst run_chunks.simps) (auto simp: Let_def)

lemma run_chunks_invariant:
  assumes "\<And>x s. P s \<Longrightarrow> P (fst (exec_cmd (seen_cmd L p ttl x) s))"
    and "\<And>e s. P s \<Longrightarrow> sound_entry L e \<Longrightarrow> seen_key p (fst e) \<notin> dom (strings s)
                \<Longrightarrow> preserves P (entry_cmds L p ttl e)"
    and "P (fst s)"
  shows "P (fst (run_chunks L p ttl chunk src start s))"
  using assms
proof (induction L p ttl chunk src start s rule: run_chunks.induct)
  case (1 L p ttl chunk src start s)
  note mark = "1.prems"(1) and grp = "1.prems"(2) and P = "1.prems"(3)
  let ?items = "lrange src start (min (start + chunk - 1) (length src - 1))"
  show ?case
  proof (cases "chunk = 0 \<or> length src \<le> start \<or> ?items = []")
    case True
    with P show ?thesis by (simp add: run_chunks_stop)
  next
    case False
    then have c: "\<not> (chunk = 0 \<or> length src \<le> start)" and ne: "?items \<noteq> []" by simp_all
    have P1: "P (fst (process_chunk L p ttl ?items (fst s, snd s)))"
    proof (rule process_chunk_invariant [where P = P and st = "fst s", OF _ _ P])
      fix x s0 assume "P s0"
      then show "P (fst (exec_cmd (seen_cmd L p ttl x) s0))" by (rule mark)
    next
      fix e assume "sound_entry L e" "seen_key p (fst e) \<notin> dom (strings (fst s))"
      with P show "preserves P (entry_cmds L p ttl e)" by (rule grp)
    qed
    then have P1': "P (fst (process_chunk L p ttl ?items s))" by simp
    obtain st1 o1 where pc: "process_chunk L p ttl ?items s = (st1, o1)"
      by (cases "process_chunk L p ttl ?items s")
    show ?thesis
    proof (cases o1)
      case None
      with pc P1' show ?thesis by (simp add: run_chunks_step [OF c ne])
    next
      case (Some c1)
      from pc Some have pc': "(st1, Some c1) = process_chunk L p ttl ?items s" by simp
      from P1' pc have P2: "P (fst (st1, c1))" by simp
      have "P (fst (run_chunks L p ttl chunk src (start + chunk) (st1, c1)))"
        by (rule "1.IH" [OF c refl ne pc' refl mark grp P2])
      with pc Some show ?thesis by (simp add: run_chunks_step [OF c ne])
    qed
  qed
qed

section \<open>The key schema\<close>

lemma seen_req_neq: "seen_key p a \<noteq> req_key p b"
  by (simp add: seen_key_def req_key_def)

lemma req_seen_neq: "req_key p b \<noteq> seen_key p a"
  by (simp add: seen_key_def req_key_def)

lemma req_key_inj: "req_key p a = req_key p b \<longleftrightarrow> a = b"
  by (simp add: req_key_def)

lemma seen_key_inj: "seen_key p a = seen_key p b \<longleftrightarrow> a = b"
  by (simp add: seen_key_def)

lemma req_not_z: "req_key p a \<noteq> z_ts p"
  by (simp add: req_key_def z_ts_def)

lemma seen_not_z: "seen_key p a \<noteq> z_ts p"
  by (simp add: seen_key_def z_ts_def)

lemma set_key_not_z: "kind \<in> fst ` set index_fields \<Longrightarrow> set_key p kind v \<noteq> z_ts p"
  by (auto simp: index_fields_def set_key_def z_ts_def)

lemma set_key_not_req: "kind \<in> fst ` set index_fields \<Longrightarrow> set_key p kind v \<noteq> req_key p a"
  by (auto simp: index_fields_def set_key_def req_key_def)

lemma set_key_not_seen: "kind \<in> fst ` set index_fields \<Longrightarrow> set_key p kind v \<noteq> seen_key p a"
  by (auto simp: index_fields_def set_key_def seen_key_def)

lemma attr_keys_schema:
  assumes "k \<in> set (attr_keys L p obj index_fields)"
  shows "k \<noteq> z_ts p \<and> k \<noteq> req_key p a \<and> k \<noteq> seen_key p a"
proof -
  from assms obtain kf where kf: "kf \<in> set index_fields"
    and k: "k = set_key p (fst kf) (py_str L (get obj (snd kf)))"
    by (auto simp: attr_keys_def)
  from kf have "fst kf \<in> fst ` set index_fields" by simp
  then show ?thesis
    unfolding k by (simp add: set_key_not_z set_key_not_req set_key_not_seen)
qed

section \<open>A run of the indexer keeps an invariant of the store\<close>

lemma main_invariant:
  assumes "\<And>x s. P s \<Longrightarrow>
      P (fst (exec_cmd (seen_cmd L p (if ttl_days \<noteq> 0 \<and> ttl_days > 0
                                     then Some (nat (ttl_days * 86400)) else None) x) s))"
    and "\<And>e s. P s \<Longrightarrow> sound_entry L e \<Longrightarrow> seen_key p (fst e) \<notin> dom (strings s)
      \<Longrightarrow> preserves P (entry_cmds L p (if ttl_days \<noteq> 0 \<and> ttl_days > 0
                                     then Some (nat (ttl_days * 86400)) else None) e)"
    and "P st"
  shows "P (fst (main L src p ttl_days chunk st))"
proof (cases "chunk \<le> 0")
  case True
  with assms(3) show ?thesis
    by (auto simp: main_def Let_def)
next
  case False
  let ?ttl = "if ttl_days \<noteq> 0 \<and> ttl_days > 0 then Some (nat (ttl_days * 86400)) else None"
  let ?c0 = "\<lparr>new_count = 0, bad_json = 0, no_id = 0, no_date = 0\<rparr>"
  from False have r: "main L src p ttl_days chunk st = run_chunks L p ?ttl (nat chunk) src 0 (st, ?c0)"
    by (simp add: main_def Let_def)
  have "P (fst (run_chunks L p ?ttl (nat chunk) src 0 (st, ?c0)))"
    by (rule run_chunks_invariant [where P = P and s = "(st, ?c0)", OF assms(1) assms(2)])
      (simp_all add: assms(3))
  with r show ?thesis by simp
qed

section \<open>What one command does to the values\<close>

lemma zadd_Nil: "zadd m s [] = [(m, s)]"
  by (simp add: zadd_def)

lemma map_option_fst_set_ttl: "map_option fst (set_ttl t x) = map_option fst x"
  by (cases x) (auto simp: set_ttl_def)

lemma strings_exec_cmd:
  "map_option fst (strings (fst (exec_cmd c st)) k) =
     (case c of
        SetNX k' v ex \<Rightarrow>
          if k' = k \<and> k \<notin> dom (strings st) then Some v else map_option fst (strings st k)
      | SetStr k' v \<Rightarrow> if k' = k then Some v else map_option fst (strings st k)
      | _ \<Rightarrow> map_option fst (strings st k))"
proof (cases c)
  case (ZAdd k' m ts)
  then show ?thesis by (cases ts) (auto split: option.splits)
qed (auto simp: map_option_fst_set_ttl split: option.splits)

lemma zsets_exec_cmd:
  "map_option fst (zsets (fst (exec_cmd c st)) k) =
     (case c of
        ZAdd k' m ts \<Rightarrow>
          (case ts of
             NaN \<Rightarrow> map_option fst (zsets st k)
           | Num s \<Rightarrow> if k' = k then Some (zadd m s (zmembers st k)) else map_option fst (zsets st k))
      | _ \<Rightarrow> map_option fst (zsets st k))"
proof (cases c)
  case (ZAdd k' m ts)
  then show ?thesis
    by (cases ts) (auto simp: zmembers_def zadd_Nil split: option.splits)
qed (auto simp: map_option_fst_set_ttl split: option.splits)

lemma zmembers_alt: "zmembers st k = (case map_option fst (zsets st k) of None \<Rightarrow> [] | Some zs \<Rightarrow> zs)"
  by (auto simp: zmembers_def split: option.splits)

lemma zmembers_exec_cmd:
  "zmembers (fst (exec_cmd c st)) k =
     (case c of
        ZAdd k' m ts \<Rightarrow>
          (case ts of
             NaN \<Rightarrow> zmembers st k
           | Num s \<Rightarrow> if k' = k then zadd m s (zmembers st k) else zmembers st k)
      | _ \<Rightarrow> zmembers st k)"
  unfolding zmembers_alt [of "fst (exec_cmd c st)"] zsets_exec_cmd
  by (simp add: zmembers_alt split: cmd.splits pyfloat.splits)

lemma sets_exec_cmd:
  "map_option fst (sets (fst (exec_cmd c st)) k) =
     (case c of
        SAdd k' m \<Rightarrow> if k' = k then Some (insert m (smembers st k)) else map_option fst (sets st k)
      | _ \<Rightarrow> map_option fst (sets st k))"
proof (cases c)
  case (ZAdd k' m ts)
  then show ?thesis by (cases ts) (auto split: option.splits)
qed (auto simp: map_option_fst_set_ttl smembers_def split: option.splits)

section \<open>The time index stays consistent with the forward records\<close>

lemma set_zinsert: "set (zinsert x zs) = insert x (set zs)"
  by (induction zs) auto

lemma sorted_zinsert: "sorted (map snd zs) \<Longrightarrow> sorted (map snd (zinsert x zs))"
proof (induction zs)
  case Nil
  then show ?case by simp
next
  case (Cons y zs)
  show ?case
  proof (cases "zle x y")
    case True
    then have "snd x \<le> snd y" by (auto simp: zle_def)
    with True Cons.prems show ?thesis by auto
  next
    case False
    then have "snd y \<le> snd x" by (auto simp: zle_def)
    with False Cons show ?thesis by (auto simp: set_zinsert)
  qed
qed

lemma sorted_zadd: "sorted (map snd zs) \<Longrightarrow> sorted (map snd (zadd m s zs))"
  unfolding zadd_def by (intro sorted_zinsert sorted_filter)

lemma set_zadd: "set (zadd m s zs) = insert (m, s) {e \<in> set zs. fst e \<noteq> m}"
  by (auto simp: zadd_def set_zinsert)

lemma map_option_fst_Some: "map_option fst x = Some v \<longleftrightarrow> (\<exists>t. x = Some (v, t))"
  by (cases x) auto

lemma consistent_alt:
  "consistent L p st \<longleftrightarrow>
     (\<forall>zs. map_option fst (zsets st (z_ts p)) = Some zs \<longrightarrow>
        sorted (map snd zs) \<and>
        (\<forall>e \<in> set zs. \<forall>raw. map_option fst (strings st (req_key p (fst e))) = Some raw \<longrightarrow>
           (\<exists>obj. json_loads L raw = Some (JObj obj)
              \<and> (py_float L (get obj ''date'') = Inr (Num (snd e))
                   \<or> py_float L (get obj ''date'') = Inr NaN))))"
  unfolding consistent_def map_option_fst_Some by blast

text \<open>A change that leaves the time index and the forward records of a prefix alone.\<close>

lemma consistent_frame:
  assumes "consistent L p st"
    and "map_option fst (zsets st' (z_ts p)) = map_option fst (zsets st (z_ts p))"
    and "\<And>m. map_option fst (strings st' (req_key p m)) = map_option fst (strings st (req_key p m))"
  shows "consistent L p st'"
  using assms unfolding consistent_alt by simp

text \<open>A change that writes the forward record of one id and gives the id its date as score.\<close>

lemma consistent_update:
  assumes c: "consistent L p st"
    and j: "json_loads L raw = Some (JObj obj)" and f: "py_float L (get obj ''date'') = Inr ts"
    and s1: "\<And>m'. m' \<noteq> m \<Longrightarrow>
          map_option fst (strings st' (req_key p m')) = map_option fst (strings st (req_key p m'))"
    and s2: "map_option fst (strings st' (req_key p m)) = Some raw"
    and z: "map_option fst (zsets st' (z_ts p)) =
          (case ts of NaN \<Rightarrow> map_option fst (zsets st (z_ts p))
                    | Num s \<Rightarrow> Some (zadd m s (zmembers st (z_ts p))))"
  shows "consistent L p st'"
  unfolding consistent_alt
proof (intro allI impI)
  fix zs'
  assume zs': "map_option fst (zsets st' (z_ts p)) = Some zs'"
  have old: "\<And>zs. map_option fst (zsets st (z_ts p)) = Some zs \<Longrightarrow>
        sorted (map snd zs) \<and>
        (\<forall>e \<in> set zs. \<forall>raw. map_option fst (strings st (req_key p (fst e))) = Some raw \<longrightarrow>
           (\<exists>obj. json_loads L raw = Some (JObj obj)
              \<and> (py_float L (get obj ''date'') = Inr (Num (snd e))
                   \<or> py_float L (get obj ''date'') = Inr NaN)))"
    using c unfolding consistent_alt by blast
  have zm: "sorted (map snd (zmembers st (z_ts p)))
        \<and> (\<forall>e \<in> set (zmembers st (z_ts p)). \<forall>raw.
              map_option fst (strings st (req_key p (fst e))) = Some raw \<longrightarrow>
           (\<exists>obj. json_loads L raw = Some (JObj obj)
              \<and> (py_float L (get obj ''date'') = Inr (Num (snd e))
                   \<or> py_float L (get obj ''date'') = Inr NaN)))"
  proof (cases "zsets st (z_ts p)")
    case None
    then show ?thesis by (simp add: zmembers_def)
  next
    case (Some a)
    obtain zs t where "a = (zs, t)" by (cases a)
    with Some old [of zs] show ?thesis by (simp add: zmembers_def)
  qed
  have sub: "set zs' \<subseteq> (case ts of NaN \<Rightarrow> {} | Num s \<Rightarrow> {(m, s)}) \<union> set (zmembers st (z_ts p))"
  proof (cases ts)
    case NaN
    with z zs' have "map_option fst (zsets st (z_ts p)) = Some zs'" by simp
    then show ?thesis by (auto simp: zmembers_def map_option_fst_Some)
  next
    case (Num s)
    with z zs' have "zs' = zadd m s (zmembers st (z_ts p))" by simp
    with Num show ?thesis by (auto simp: set_zadd)
  qed
  have srt: "sorted (map snd zs')"
  proof (cases ts)
    case NaN
    with z zs' have "map_option fst (zsets st (z_ts p)) = Some zs'" by simp
    with old show ?thesis by blast
  next
    case (Num s)
    with z zs' have "zs' = zadd m s (zmembers st (z_ts p))" by simp
    with zm show ?thesis by (simp add: sorted_zadd)
  qed
  have mem: "\<exists>obj'. json_loads L raw' = Some (JObj obj')
              \<and> (py_float L (get obj' ''date'') = Inr (Num (snd e))
                   \<or> py_float L (get obj' ''date'') = Inr NaN)"
    if e: "e \<in> set zs'" and r: "map_option fst (strings st' (req_key p (fst e))) = Some raw'"
    for e raw'
  proof (cases "fst e = m")
    case True
    with r s2 have raw': "raw' = raw" by simp
    show ?thesis
    proof (cases ts)
      case NaN
      with j f raw' show ?thesis by simp
    next
      case (Num s)
      with z zs' have "zs' = zadd m s (zmembers st (z_ts p))" by simp
      with e True have "snd e = s" by (auto simp: set_zadd)
      with j f raw' Num show ?thesis by simp
    qed
  next
    case False
    from sub e False have "e \<in> set (zmembers st (z_ts p))"
      by (cases ts) auto
    moreover from r s1 [OF False]
    have "map_option fst (strings st (req_key p (fst e))) = Some raw'" by simp
    ultimately show ?thesis using zm by blast
  qed
  from srt mem show "sorted (map snd zs') \<and>
        (\<forall>e \<in> set zs'. \<forall>raw. map_option fst (strings st' (req_key p (fst e))) = Some raw \<longrightarrow>
           (\<exists>obj. json_loads L raw = Some (JObj obj)
              \<and> (py_float L (get obj ''date'') = Inr (Num (snd e))
                   \<or> py_float L (get obj ''date'') = Inr NaN)))"
    by blast
qed

section \<open>Keys of independent prefixes\<close>

text \<open>Two keys that are equal have equal prefixes, or one prefix continues the other.\<close>

lemma key_prefix:
  assumes eq: "p @ CHR '':'' # a = p' @ CHR '':'' # b" and ne: "p \<noteq> p'"
  shows "starts_with (p @ '':'') p' \<or> starts_with (p' @ '':'') p"
proof -
  from eq obtain us where
    "(p = p' @ us \<and> us @ CHR '':'' # a = CHR '':'' # b)
     \<or> (p @ us = p' \<and> CHR '':'' # a = us @ CHR '':'' # b)"
    by (auto simp: append_eq_append_conv2)
  then show ?thesis
  proof
    assume h: "p = p' @ us \<and> us @ CHR '':'' # a = CHR '':'' # b"
    with ne have "us \<noteq> []" by auto
    with h obtain us' where "us = CHR '':'' # us'" by (cases us) auto
    with h have "p = (p' @ '':'') @ us'" by simp
    then show ?thesis unfolding starts_with_iff by blast
  next
    assume h: "p @ us = p' \<and> CHR '':'' # a = us @ CHR '':'' # b"
    with ne have "us \<noteq> []" by auto
    with h obtain us' where "us = CHR '':'' # us'" by (cases us) auto
    with h have "p' = (p @ '':'') @ us'" by auto
    then show ?thesis unfolding starts_with_iff by blast
  qed
qed

lemma independent_keys:
  assumes "independent p p'" and "p \<noteq> p'"
  shows "req_key p a \<noteq> req_key p' b" and "req_key p a \<noteq> seen_key p' b"
    and "z_ts p \<noteq> z_ts p'"
proof -
  show "req_key p a \<noteq> req_key p' b"
  proof
    assume "req_key p a = req_key p' b"
    then have "p @ CHR '':'' # (''req:'' @ a) = p' @ CHR '':'' # (''req:'' @ b)"
      by (simp add: req_key_def)
    from key_prefix [OF this assms(2)] assms(1) show False by (simp add: independent_def)
  qed
  show "req_key p a \<noteq> seen_key p' b"
  proof
    assume "req_key p a = seen_key p' b"
    then have "p @ CHR '':'' # (''req:'' @ a) = p' @ CHR '':'' # (''seen:'' @ b)"
      by (simp add: req_key_def seen_key_def)
    from key_prefix [OF this assms(2)] assms(1) show False by (simp add: independent_def)
  qed
  from assms(2) show "z_ts p \<noteq> z_ts p'" by (simp add: z_ts_def)
qed

lemma z_ts_inj: "z_ts p = z_ts p' \<longleftrightarrow> p = p'"
  by (simp add: z_ts_def)

section \<open>The commands of a run keep every time index consistent\<close>

lemma fst_execute_2: "fst (execute [a, b] st) = fst (exec_cmd b (fst (exec_cmd a st)))"
  by (simp only: fst_execute_Cons execute.simps(1) fst_conv)

lemma fst_execute_3:
  "fst (execute [a, b, c] st) = fst (exec_cmd c (fst (exec_cmd b (fst (exec_cmd a st)))))"
  by (simp only: fst_execute_Cons execute.simps(1) fst_conv)

lemma consistent_mark:
  assumes "consistent L p st" and "p = p' \<or> independent p p'"
  shows "consistent L p (fst (exec_cmd (seen_cmd L p' ttl x) st))"
proof (rule consistent_frame [OF assms(1)])
  show "map_option fst (zsets (fst (exec_cmd (seen_cmd L p' ttl x) st)) (z_ts p))
      = map_option fst (zsets st (z_ts p))"
    by (simp add: zsets_exec_cmd seen_cmd_def del: exec_cmd.simps)
next
  fix m
  have "seen_key p' (py_str L (fst x)) \<noteq> req_key p m"
  proof (cases "p = p'")
    case True
    then show ?thesis by (simp add: seen_req_neq)
  next
    case False
    with assms(2) independent_keys(2) [of p p' m "py_str L (fst x)"] show ?thesis by auto
  qed
  then show "map_option fst (strings (fst (exec_cmd (seen_cmd L p' ttl x) st)) (req_key p m))
      = map_option fst (strings st (req_key p m))"
    by (simp add: strings_exec_cmd seen_cmd_def del: exec_cmd.simps)
qed

lemma consistent_expire: "consistent L p st \<Longrightarrow> consistent L p (fst (exec_cmd (Expire k t) st))"
  by (rule consistent_frame) (simp_all add: strings_exec_cmd zsets_exec_cmd del: exec_cmd.simps)

lemma consistent_sadd: "consistent L p st \<Longrightarrow> consistent L p (fst (exec_cmd (SAdd k m) st))"
  by (rule consistent_frame) (simp_all add: strings_exec_cmd zsets_exec_cmd del: exec_cmd.simps)

lemma consistent_attr_cmds: "preserves (consistent L p) (attr_cmds ttl m keys)"
proof (rule preserves_each)
  fix c st
  assume "c \<in> set (attr_cmds ttl m keys)" and st: "consistent L p st"
  then have "(\<exists>k. c = SAdd k m) \<or> (\<exists>k t. c = Expire k t)"
    by (auto simp: attr_cmds_def exp_cmds_def split: if_splits)
  with st show "consistent L p (fst (exec_cmd c st))"
    by (auto intro: consistent_sadd consistent_expire)
qed

text \<open>Under its own prefix: the forward record, its expiration and the score.\<close>

lemma consistent_set_then_zadd:
  assumes c: "consistent L p st" and j: "json_loads L raw = Some (JObj obj)"
    and f: "py_float L (get obj ''date'') = Inr ts"
  shows "consistent L p
           (fst (execute (([SetStr (req_key p m) raw] @ exp_cmds ttl (req_key p m))
                           @ [ZAdd (z_ts p) m ts]) st))"
proof (cases "ttl_on ttl")
  case False
  then have cs: "([SetStr (req_key p m) raw] @ exp_cmds ttl (req_key p m)) @ [ZAdd (z_ts p) m ts]
      = [SetStr (req_key p m) raw, ZAdd (z_ts p) m ts]"
    by (simp add: exp_cmds_def)
  show ?thesis
    unfolding cs fst_execute_2
  proof (rule consistent_update [OF c j f, of m])
    fix m' assume "m' \<noteq> m"
    then show "map_option fst (strings (fst (exec_cmd (ZAdd (z_ts p) m ts)
          (fst (exec_cmd (SetStr (req_key p m) raw) st)))) (req_key p m'))
        = map_option fst (strings st (req_key p m'))"
      by (simp add: strings_exec_cmd req_key_inj del: exec_cmd.simps)
  next
    show "map_option fst (strings (fst (exec_cmd (ZAdd (z_ts p) m ts)
          (fst (exec_cmd (SetStr (req_key p m) raw) st)))) (req_key p m)) = Some raw"
      by (simp add: strings_exec_cmd del: exec_cmd.simps)
  next
    show "map_option fst (zsets (fst (exec_cmd (ZAdd (z_ts p) m ts)
          (fst (exec_cmd (SetStr (req_key p m) raw) st)))) (z_ts p))
        = (case ts of NaN \<Rightarrow> map_option fst (zsets st (z_ts p))
                    | Num s \<Rightarrow> Some (zadd m s (zmembers st (z_ts p))))"
      by (cases ts) (simp_all add: zsets_exec_cmd zmembers_exec_cmd del: exec_cmd.simps)
  qed
next
  case True
  then have cs: "([SetStr (req_key p m) raw] @ exp_cmds ttl (req_key p m)) @ [ZAdd (z_ts p) m ts]
      = [SetStr (req_key p m) raw, Expire (req_key p m) (the ttl), ZAdd (z_ts p) m ts]"
    by (simp add: exp_cmds_def)
  have zm: "zmembers (fst (exec_cmd (Expire (req_key p m) (the ttl))
        (fst (exec_cmd (SetStr (req_key p m) raw) st)))) (z_ts p) = zmembers st (z_ts p)"
    by (simp add: zmembers_exec_cmd del: exec_cmd.simps)
  show ?thesis
    unfolding cs fst_execute_3
  proof (rule consistent_update [OF c j f, of m])
    fix m' assume "m' \<noteq> m"
    then show "map_option fst (strings (fst (exec_cmd (ZAdd (z_ts p) m ts)
          (fst (exec_cmd (Expire (req_key p m) (the ttl))
            (fst (exec_cmd (SetStr (req_key p m) raw) st)))))) (req_key p m'))
        = map_option fst (strings st (req_key p m'))"
      by (simp add: strings_exec_cmd req_key_inj del: exec_cmd.simps)
  next
    show "map_option fst (strings (fst (exec_cmd (ZAdd (z_ts p) m ts)
          (fst (exec_cmd (Expire (req_key p m) (the ttl))
            (fst (exec_cmd (SetStr (req_key p m) raw) st)))))) (req_key p m)) = Some raw"
      by (simp add: strings_exec_cmd del: exec_cmd.simps)
  next
    show "map_option fst (zsets (fst (exec_cmd (ZAdd (z_ts p) m ts)
          (fst (exec_cmd (Expire (req_key p m) (the ttl))
            (fst (exec_cmd (SetStr (req_key p m) raw) st)))))) (z_ts p))
        = (case ts of NaN \<Rightarrow> map_option fst (zsets st (z_ts p))
                    | Num s \<Rightarrow> Some (zadd m s (zmembers st (z_ts p))))"
      by (cases ts) (simp_all add: zsets_exec_cmd zm del: exec_cmd.simps)
  qed
qed

lemma entry_cmds_shape:
  assumes "c \<in> set (entry_cmds L p ttl (m, raw, ts, obj))"
  shows "c = SetStr (req_key p m) raw \<or> (\<exists>k t. c = Expire k t) \<or> c = ZAdd (z_ts p) m ts
         \<or> (\<exists>k \<in> set (attr_keys L p obj index_fields). c = SAdd k m)"
  using assms
  by (auto simp: entry_cmds_def record_cmds_def attr_cmds_def exp_cmds_def split: if_splits)

lemma consistent_entry:
  assumes "sound_entry L e" and "p = p' \<or> independent p p'"
  shows "preserves (consistent L p) (entry_cmds L p' ttl e)"
proof -
  obtain m raw ts obj where e: "e = (m, raw, ts, obj)" by (metis prod_cases4)
  from assms e have j: "json_loads L raw = Some (JObj obj)"
    and f: "py_float L (get obj ''date'') = Inr ts"
    by (simp_all add: sound_entry_def)
  show ?thesis
  proof (cases "p = p'")
    case True
    have "preserves (consistent L p)
        (([SetStr (req_key p m) raw] @ exp_cmds ttl (req_key p m)) @ [ZAdd (z_ts p) m ts])"
      unfolding preserves_def using consistent_set_then_zadd [OF _ j f] by blast
    then have "preserves (consistent L p)
        ((([SetStr (req_key p m) raw] @ exp_cmds ttl (req_key p m)) @ [ZAdd (z_ts p) m ts])
          @ attr_cmds ttl m (attr_keys L p obj index_fields))"
      by (rule preserves_append) (rule consistent_attr_cmds)
    with True show ?thesis
      by (simp add: e entry_cmds_def record_cmds_def)
  next
    case False
    with assms(2) have ind: "independent p p'" by simp
    show ?thesis
      unfolding e
    proof (rule preserves_each)
      fix c st
      assume c: "c \<in> set (entry_cmds L p' ttl (m, raw, ts, obj))" and st: "consistent L p st"
      from entry_cmds_shape [OF c] consider
        "c = SetStr (req_key p' m) raw" | k t where "c = Expire k t"
        | "c = ZAdd (z_ts p') m ts" | k where "c = SAdd k m" by blast
      then show "consistent L p (fst (exec_cmd c st))"
      proof cases
        case 1
        show ?thesis
          unfolding 1
          by (rule consistent_frame [OF st])
            (simp_all add: strings_exec_cmd zsets_exec_cmd independent_keys(1) [OF ind False, symmetric]
              del: exec_cmd.simps)
      next
        case 2
        show ?thesis unfolding 2 by (rule consistent_expire [OF st])
      next
        case 3
        from independent_keys(3) [OF ind False] have "z_ts p' \<noteq> z_ts p" by simp
        then show ?thesis
          unfolding 3
          by (intro consistent_frame [OF st])
            (cases ts; simp add: strings_exec_cmd zsets_exec_cmd del: exec_cmd.simps)+
      next
        case 4
        show ?thesis unfolding 4 by (rule consistent_sadd [OF st])
      qed
    qed
  qed
qed

lemma consistent_main:
  assumes "consistent L p st" and "p = p' \<or> independent p p'"
  shows "consistent L p (fst (main L src p' ttl_days chunk st))"
proof (rule main_invariant [where P = "consistent L p", OF _ _ assms(1)])
  fix x s assume "consistent L p s"
  then show "consistent L p (fst (exec_cmd (seen_cmd L p' (if ttl_days \<noteq> 0 \<and> ttl_days > 0
                                     then Some (nat (ttl_days * 86400)) else None) x) s))"
    using assms(2) by (rule consistent_mark)
next
  fix e s assume "sound_entry L e"
  then show "preserves (consistent L p) (entry_cmds L p' (if ttl_days \<noteq> 0 \<and> ttl_days > 0
                                     then Some (nat (ttl_days * 86400)) else None) e)"
    using assms(2) by (rule consistent_entry)
qed

lemma consistent_empty: "consistent L p empty_redis"
  by (simp add: consistent_def empty_redis_def)

lemma built_consistent:
  assumes "built L ps st" and "separate ps" and "p \<in> set ps"
  shows "consistent L p st"
  using assms(1)
proof (induction rule: built.induct)
  case built_empty
  show ?case by (rule consistent_empty)
next
  case (built_run st prefix source ttl_days chunk)
  from assms(2,3) built_run.hyps(2) have "p = prefix \<or> independent p prefix"
    by (auto simp: separate_def)
  with built_run.IH show ?case by (rule consistent_main)
next
  case (built_expire_string st k v t)
  then show ?case by (auto simp: consistent_def split: if_splits)
next
  case (built_expire_zset st k zs t)
  then show ?case by (auto simp: consistent_def split: if_splits)
next
  case (built_expire_set st k S t)
  then show ?case by (auto simp: consistent_def)
qed

section \<open>The dates of the records that a search returns\<close>

lemma map_of_set_item: "k \<noteq> k' \<Longrightarrow> map_of (set_item obj k v) k' = map_of obj k'"
  by (induction obj) auto

lemma get_set_item: "k \<noteq> k' \<Longrightarrow> get (set_item obj k v) k' = get obj k'"
  by (simp add: get_def map_of_set_item)

lemma get_default_get: "py_float L (get obj k) = Inr x \<Longrightarrow> get_default obj k d = get obj k"
  by (auto simp: get_def get_default_def split: option.splits)

lemma yields_date:
  assumes c: "consistent L p st" and p: "q_prefix q = p"
    and z: "zsets st (z_ts p) = Some (zs, t)" and e: "e \<in> set zs"
    and y: "yields L st q (fst e) rec"
  shows "date_of L rec = Inr (Num (snd e))"
proof -
  from y p obtain raw t' obj ts h where
    s: "strings st (req_key p (fst e)) = Some (raw, t')"
    and j: "json_loads L raw = Some (JObj obj)"
    and f: "py_float L (get_default obj ''date'' (JInt 0)) = Inr ts"
    and h: "from_timestamp L ts = Inr h"
    and r: "rec = set_item obj ''_date_human'' (JStr h)"
    by (auto simp: yields_def redis_get_def split: option.splits json.splits sum.splits)
  from c z e s obtain obj' where "json_loads L raw = Some (JObj obj')"
    and "py_float L (get obj' ''date'') = Inr (Num (snd e))
         \<or> py_float L (get obj' ''date'') = Inr NaN"
    unfolding consistent_def by blast
  with j have d: "py_float L (get obj ''date'') = Inr (Num (snd e))
      \<or> py_float L (get obj ''date'') = Inr NaN" by simp
  then have "get_default obj ''date'' (JInt 0) = get obj ''date''"
    by (auto dest: get_default_get)
  with f have f': "py_float L (get obj ''date'') = Inr ts" by simp
  from h have "ts \<noteq> NaN" by (auto simp: from_timestamp_def)
  with d f' have "py_float L (get obj ''date'') = Inr (Num (snd e))" by auto
  then show ?thesis
    by (simp add: date_of_def r get_set_item)
qed

lemma list_all2_map_eq:
  "list_all2 Y (map f xs) ys \<Longrightarrow> (\<And>x y. x \<in> set xs \<Longrightarrow> Y (f x) y \<Longrightarrow> g y = h x)
     \<Longrightarrow> map g ys = map h xs"
proof (induction xs arbitrary: ys)
  case Nil
  then show ?case by simp
next
  case (Cons x xs)
  from Cons.prems(1) obtain y ys' where ys: "ys = y # ys'" and Y: "Y (f x) y"
    and rest: "list_all2 Y (map f xs) ys'"
    by (auto simp: list_all2_Cons1)
  from Cons.prems(2) [of x y] Y have "g y = h x" by simp
  moreover have "map g ys' = map h xs"
    by (rule Cons.IH [OF rest]) (auto intro: Cons.prems(2))
  ultimately show ?case by (simp add: ys)
qed

lemma slice_to_map: "slice_to n (map f xs) = map f (slice_to n xs)"
  by (simp add: slice_to_def take_map)

lemma set_slice_to: "set (slice_to n xs) \<subseteq> set xs"
  by (auto simp: slice_to_def dest: in_set_takeD)

lemma sorted_wrt_slice_to: "sorted_wrt R xs \<Longrightarrow> sorted_wrt R (slice_to n xs)"
  by (simp add: slice_to_def sorted_wrt_take)

text \<open>
  The ids of \<open>ordered_ids\<close> are the members of a list of (member, score)
  pairs of the time index, all in the window, in the order of the request.
\<close>

lemma ordered_ids_pairs:
  assumes z: "zsets st (z_ts (q_prefix q)) = Some (zs, t)" and srt: "sorted (map snd zs)"
  shows "\<exists>ps. ordered_ids st q s e = map fst ps \<and> set ps \<subseteq> set zs
           \<and> (\<forall>x \<in> set ps. s \<le> snd x \<and> snd x \<le> e)
           \<and> (if q_order q = ''newest'' then sorted_wrt (\<ge>) (map snd ps)
               else sorted_wrt (\<le>) (map snd ps))"
proof -
  let ?zr = "filter (\<lambda>x. s \<le> snd x \<and> snd x \<le> e) zs"
  let ?zr' = "if q_order q = ''newest'' then rev ?zr else ?zr"
  let ?C = "candidates_of st q (map fst ?zr')"
  let ?ps = "slice_to (q_limit q) (filter (\<lambda>x. fst x \<in> ?C) ?zr')"
  have ids: "ordered_ids st q s e = map fst ?ps"
    by (simp add: ordered_ids_def zrangebyscore_def z Let_def slice_to_map filter_map
        comp_def rev_map)
  have sub: "set ?ps \<subseteq> set ?zr"
    using set_slice_to [of "q_limit q" "filter (\<lambda>x. fst x \<in> ?C) ?zr'"] by auto
  from srt have "sorted_wrt (\<lambda>x y. snd x \<le> snd y) zs"
    by (simp add: sorted_map)
  then have asc: "sorted_wrt (\<lambda>x y. snd x \<le> snd y) ?zr"
    by (rule sorted_wrt_filter)
  have ord: "if q_order q = ''newest'' then sorted_wrt (\<lambda>x y. snd x \<ge> snd y) ?ps
             else sorted_wrt (\<lambda>x y. snd x \<le> snd y) ?ps"
  proof (cases "q_order q = ''newest''")
    case True
    from asc have "sorted_wrt (\<lambda>x y. snd x \<ge> snd y) (rev ?zr)"
      by (simp add: sorted_wrt_rev)
    then have "sorted_wrt (\<lambda>x y. snd x \<ge> snd y) (filter (\<lambda>x. fst x \<in> ?C) (rev ?zr))"
      by (rule sorted_wrt_filter)
    then have "sorted_wrt (\<lambda>x y. snd x \<ge> snd y)
        (slice_to (q_limit q) (filter (\<lambda>x. fst x \<in> ?C) (rev ?zr)))"
      by (rule sorted_wrt_slice_to)
    with True show ?thesis by simp
  next
    case False
    from asc have "sorted_wrt (\<lambda>x y. snd x \<le> snd y) (filter (\<lambda>x. fst x \<in> ?C) ?zr)"
      by (rule sorted_wrt_filter)
    then have "sorted_wrt (\<lambda>x y. snd x \<le> snd y)
        (slice_to (q_limit q) (filter (\<lambda>x. fst x \<in> ?C) ?zr))"
      by (rule sorted_wrt_slice_to)
    with False show ?thesis by simp
  qed
  have "\<exists>ps. ordered_ids st q s e = map fst ps \<and> set ps \<subseteq> set ?zr
      \<and> (if q_order q = ''newest'' then sorted_wrt (\<lambda>x y. snd x \<ge> snd y) ps
          else sorted_wrt (\<lambda>x y. snd x \<le> snd y) ps)"
    using ids sub ord by blast
  then obtain ps where ps: "ordered_ids st q s e = map fst ps" "set ps \<subseteq> set ?zr"
    "if q_order q = ''newest'' then sorted_wrt (\<lambda>x y. snd x \<ge> snd y) ps
          else sorted_wrt (\<lambda>x y. snd x \<le> snd y) ps" by blast
  from ps(2) have "set ps \<subseteq> set zs" "\<forall>x \<in> set ps. s \<le> snd x \<and> snd x \<le> e" by auto
  moreover from ps(3) have "if q_order q = ''newest'' then sorted_wrt (\<ge>) (map snd ps)
               else sorted_wrt (\<le>) (map snd ps)"
    by (simp add: sorted_wrt_map)
  ultimately show ?thesis using ps(1) by blast
qed

lemma fetch_dates:
  assumes c: "consistent L (q_prefix q) st"
    and f: "fetch L st q (ordered_ids st q s e) = Inr rs"
  shows "\<exists>ds. map (date_of L) rs = map (\<lambda>d. Inr (Num d)) ds \<and> (\<forall>d \<in> set ds. s \<le> d \<and> d \<le> e)
           \<and> (if q_order q = ''newest'' then sorted_wrt (\<ge>) ds else sorted_wrt (\<le>) ds)"
proof (cases "zsets st (z_ts (q_prefix q))")
  case None
  then have "ordered_ids st q s e = []"
    by (simp add: ordered_ids_def zrangebyscore_def Let_def slice_to_def)
  with f have "rs = []" by simp
  then show ?thesis by simp
next
  case (Some a)
  obtain zs t where a: "a = (zs, t)" by (cases a)
  from Some a have z: "zsets st (z_ts (q_prefix q)) = Some (zs, t)" by simp
  from c z have srt: "sorted (map snd zs)" by (auto simp: consistent_def)
  from ordered_ids_pairs [OF z srt, of s e] obtain ps where
    ids: "ordered_ids st q s e = map fst ps" and sub: "set ps \<subseteq> set zs"
    and win: "\<forall>x \<in> set ps. s \<le> snd x \<and> snd x \<le> e"
    and ord: "if q_order q = ''newest'' then sorted_wrt (\<ge>) (map snd ps)
               else sorted_wrt (\<le>) (map snd ps)" by blast
  let ?ks = "filter (\<lambda>x. kept L st q (fst x)) ps"
  from fetch_Inr [OF f] have "list_all2 (yields L st q) (map fst ?ks) rs"
    by (simp add: ids filter_map comp_def)
  then have dates: "map (date_of L) rs = map (\<lambda>x. Inr (Num (snd x))) ?ks"
  proof (rule list_all2_map_eq)
    fix x y
    assume "x \<in> set ?ks" and "yields L st q (fst x) y"
    with sub show "date_of L y = Inr (Num (snd x))"
      by (auto intro: yields_date [OF c refl z])
  qed
  have "map (date_of L) rs = map (\<lambda>d. Inr (Num d)) (map snd ?ks)"
    by (simp add: dates comp_def)
  moreover have "\<forall>d \<in> set (map snd ?ks). s \<le> d \<and> d \<le> e"
    using win by auto
  moreover have "if q_order q = ''newest'' then sorted_wrt (\<ge>) (map snd ?ks)
      else sorted_wrt (\<le>) (map snd ?ks)"
  proof (cases "q_order q = ''newest''")
    case True
    with ord have "sorted_wrt (\<lambda>x y. snd x \<ge> snd y) ps" by (simp add: sorted_wrt_map)
    then have "sorted_wrt (\<lambda>x y. snd x \<ge> snd y) ?ks" by (rule sorted_wrt_filter)
    with True show ?thesis by (simp add: sorted_wrt_map)
  next
    case False
    with ord have "sorted_wrt (\<lambda>x y. snd x \<le> snd y) ps" by (simp add: sorted_wrt_map)
    then have "sorted_wrt (\<lambda>x y. snd x \<le> snd y) ?ks" by (rule sorted_wrt_filter)
    with False show ?thesis by (simp add: sorted_wrt_map)
  qed
  ultimately show ?thesis by blast
qed

section \<open>Window and order of the results\<close>

lemma sample_store_built: "built sample_lib ps sample_store" if "''bw_idx'' \<in> set ps"
  unfolding sample_store_def by (rule built_run [OF built_empty that])

lemma paired_store_built: "built sample_lib [''bw_idx'', ''edge''] paired_store"
  unfolding paired_store_def by (rule built_run [OF sample_store_built]) simp_all

lemma mixed_store_built: "built sample_lib [''bw_idx'', ''bw_idx:req''] mixed_store"
  unfolding mixed_store_def by (intro built_run built_empty) simp_all

lemma separate_pair: "separate [''bw_idx'', ''edge'']"
  by (simp add: separate_def independent_def)

lemma search_dates:
  assumes b: "built L ps st" and sep: "separate ps" and pin: "q_prefix q \<in> set ps"
    and r: "search_reports L st q = Inr res"
  shows "\<exists>s e ds. to_epoch L (q_start q) = Inr s \<and> to_epoch L (q_end q) = Inr e
           \<and> map (date_of L) (results res) = map (\<lambda>d. Inr (Num d)) ds
           \<and> (\<forall>d \<in> set ds. s \<le> d \<and> d \<le> e)
           \<and> (if q_order q = ''newest'' then sorted_wrt (\<ge>) ds else sorted_wrt (\<le>) ds)"
proof -
  from search_reports_Inr [OF r] obtain s e where
    se: "to_epoch L (q_start q) = Inr s" "to_epoch L (q_end q) = Inr e"
    and f: "fetch L st q (ordered_ids st q s e) = Inr (results res)" by blast
  from fetch_dates [OF built_consistent [OF b sep pin] f] se show ?thesis by blast
qed

text \<open>
  Claim C3, as stated: on every store built by the indexer, every record that
  a search returns has its date in the window. It fails on a store that the
  indexer has written under two prefixes of which one continues the other:
  the forward record of id \<^verbatim>\<open>req:k\<close> under \<^verbatim>\<open>bw_idx\<close>, date 1500, has the key of
  the forward record of id \<^verbatim>\<open>k\<close> under \<^verbatim>\<open>bw_idx:req\<close>, date 5000, which has
  replaced it. The search under \<^verbatim>\<open>bw_idx\<close> for the window from 0 to 2000
  returns that record.
\<close>

theorem search_range_counterexample:
  "built sample_lib [''bw_idx'', ''bw_idx:req''] mixed_store
   \<and> to_epoch sample_lib ''0'' = Inr (Fin 0) \<and> to_epoch sample_lib ''2000'' = Inr (Fin 2000)
   \<and> search_reports sample_lib mixed_store (sample_query\<lparr>q_end := ''2000''\<rparr>)
     = Inr \<lparr>count = 3, top_ips = [(JStr ''5.6.7.8'', 1), (JStr ''1.2.3.4'', 1)],
            top_urls = [(JStr ''/index'', 1), (JStr ''/admin'', 1)], top_reasons = [],
            results = [set_item doc_b ''_date_human'' (JStr ''T''),
                       set_item doc_o ''_date_human'' (JStr ''T''),
                       set_item doc_a ''_date_human'' (JStr ''T'')]\<rparr>
   \<and> date_of sample_lib (set_item doc_o ''_date_human'' (JStr ''T'')) = Inr (Num (Fin 5000))
   \<and> \<not> Fin 5000 \<le> Fin 2000"
proof -
  have t: "to_epoch sample_lib ''0'' = Inr (Fin 0)" "to_epoch sample_lib ''2000'' = Inr (Fin 2000)"
    by code_simp+
  have r: "search_reports sample_lib mixed_store (sample_query\<lparr>q_end := ''2000''\<rparr>)
     = Inr \<lparr>count = 3, top_ips = [(JStr ''5.6.7.8'', 1), (JStr ''1.2.3.4'', 1)],
            top_urls = [(JStr ''/index'', 1), (JStr ''/admin'', 1)], top_reasons = [],
            results = [set_item doc_b ''_date_human'' (JStr ''T''),
                       set_item doc_o ''_date_human'' (JStr ''T''),
                       set_item doc_a ''_date_human'' (JStr ''T'')]\<rparr>"
    by code_simp
  have d: "date_of sample_lib (set_item doc_o ''_date_human'' (JStr ''T'')) = Inr (Num (Fin 5000))"
    by code_simp
  have n: "\<not> Fin 5000 \<le> Fin 2000"
    by (simp add: less_eq_score_def)
  from mixed_store_built t r d n show ?thesis by blast
qed

text \<open>
  Claim C3, amended. On a store built by the indexer under prefixes that are
  pairwise equal or independent, a search under one of them returns only
  records whose date \<^verbatim>\<open>float\<close> reads as a number that lies in the window
  resolved from start and end, both ends included.
\<close>

theorem search_range:
  assumes "built L ps st" and "separate ps" and "q_prefix q \<in> set ps"
    and "search_reports L st q = Inr res"
    and "to_epoch L (q_start q) = Inr s" and "to_epoch L (q_end q) = Inr e"
  shows "\<forall>rec \<in> set (results res). \<exists>d. date_of L rec = Inr (Num d) \<and> s \<le> d \<and> d \<le> e"
proof
  fix rec
  assume rec: "rec \<in> set (results res)"
  from search_dates [OF assms(1-4)] assms(5,6) obtain ds where
    m: "map (date_of L) (results res) = map (\<lambda>d. Inr (Num d)) ds"
    and w: "\<forall>d \<in> set ds. s \<le> d \<and> d \<le> e"
    by auto
  from rec have "date_of L rec \<in> set (map (date_of L) (results res))" by simp
  with m obtain d where "d \<in> set ds" "date_of L rec = Inr (Num d)" by auto
  with w show "\<exists>d. date_of L rec = Inr (Num d) \<and> s \<le> d \<and> d \<le> e" by blast
qed

theorem search_range_witness:
  "built sample_lib [''bw_idx'', ''edge''] paired_store \<and> separate [''bw_idx'', ''edge'']
   \<and> q_prefix (sample_query\<lparr>q_start := ''500'', q_end := ''1000''\<rparr>) \<in> set [''bw_idx'', ''edge'']
   \<and> to_epoch sample_lib ''500'' = Inr (Fin 500) \<and> to_epoch sample_lib ''1000'' = Inr (Fin 1000)
   \<and> search_reports sample_lib paired_store (sample_query\<lparr>q_start := ''500'', q_end := ''1000''\<rparr>)
     = Inr \<lparr>count = 1, top_ips = [(JStr ''1.2.3.4'', 1)], top_urls = [(JStr ''/admin'', 1)],
            top_reasons = [], results = [set_item doc_a ''_date_human'' (JStr ''T'')]\<rparr>
   \<and> date_of sample_lib (set_item doc_a ''_date_human'' (JStr ''T'')) = Inr (Num (Fin 1000))
   \<and> Fin 500 \<le> Fin 1000 \<and> Fin 1000 \<le> Fin 1000"
proof -
  let ?q = "sample_query\<lparr>q_start := ''500'', q_end := ''1000''\<rparr>"
  let ?rec = "set_item doc_a ''_date_human'' (JStr ''T'')"
  let ?res = "\<lparr>count = 1, top_ips = [(JStr ''1.2.3.4'', 1)], top_urls = [(JStr ''/admin'', 1)],
            top_reasons = [], results = [?rec]\<rparr>"
  have p: "q_prefix ?q \<in> set [''bw_idx'', ''edge'']"
    by (simp add: sample_query_def)
  have r: "search_reports sample_lib paired_store ?q = Inr ?res"
    by code_simp
  have s: "to_epoch sample_lib (q_start ?q) = Inr (Fin 500)"
    by code_simp
  have e: "to_epoch sample_lib (q_end ?q) = Inr (Fin 1000)"
    by code_simp
  have d: "date_of sample_lib ?rec = Inr (Num (Fin 1000))"
    by code_simp
  from search_range [OF paired_store_built separate_pair p r s e]
  have "\<exists>d. date_of sample_lib ?rec = Inr (Num d) \<and> Fin 500 \<le> d \<and> d \<le> Fin 1000" by simp
  with d have "Fin 500 \<le> Fin 1000 \<and> Fin 1000 \<le> Fin 1000" by simp
  with paired_store_built separate_pair p r s e d show ?thesis by simp
qed

text \<open>
  Claim C9, as stated: for every search request the dates of the results never
  increase with order \<open>newest\<close> and never decrease with order \<open>oldest\<close>. It
  fails on the store written under \<^verbatim>\<open>bw_idx\<close> and \<^verbatim>\<open>bw_idx:req\<close>: the record
  dated 5000 comes at the place of the score 1500.
\<close>

theorem search_order_counterexample:
  "built sample_lib [''bw_idx'', ''bw_idx:req''] mixed_store
   \<and> search_reports sample_lib mixed_store (sample_query\<lparr>q_order := ''oldest''\<rparr>)
     = Inr \<lparr>count = 3, top_ips = [(JStr ''1.2.3.4'', 1), (JStr ''5.6.7.8'', 1)],
            top_urls = [(JStr ''/admin'', 1), (JStr ''/index'', 1)], top_reasons = [],
            results = [set_item doc_a ''_date_human'' (JStr ''T''),
                       set_item doc_o ''_date_human'' (JStr ''T''),
                       set_item doc_b ''_date_human'' (JStr ''T'')]\<rparr>
   \<and> map (date_of sample_lib)
       [set_item doc_a ''_date_human'' (JStr ''T''), set_item doc_o ''_date_human'' (JStr ''T''),
        set_item doc_b ''_date_human'' (JStr ''T'')]
     = [Inr (Num (Fin 1000)), Inr (Num (Fin 5000)), Inr (Num (Fin 2000))]
   \<and> \<not> sorted_wrt (\<le>) [Fin 1000, Fin 5000, Fin 2000]
   \<and> search_reports sample_lib mixed_store sample_query
     = Inr \<lparr>count = 3, top_ips = [(JStr ''5.6.7.8'', 1), (JStr ''1.2.3.4'', 1)],
            top_urls = [(JStr ''/index'', 1), (JStr ''/admin'', 1)], top_reasons = [],
            results = [set_item doc_b ''_date_human'' (JStr ''T''),
                       set_item doc_o ''_date_human'' (JStr ''T''),
                       set_item doc_a ''_date_human'' (JStr ''T'')]\<rparr>
   \<and> \<not> sorted_wrt (\<ge>) [Fin 2000, Fin 5000, Fin 1000]"
proof -
  have r: "search_reports sample_lib mixed_store (sample_query\<lparr>q_order := ''oldest''\<rparr>)
     = Inr \<lparr>count = 3, top_ips = [(JStr ''1.2.3.4'', 1), (JStr ''5.6.7.8'', 1)],
            top_urls = [(JStr ''/admin'', 1), (JStr ''/index'', 1)], top_reasons = [],
            results = [set_item doc_a ''_date_human'' (JStr ''T''),
                       set_item doc_o ''_date_human'' (JStr ''T''),
                       set_item doc_b ''_date_human'' (JStr ''T'')]\<rparr>"
    by code_simp
  have d: "map (date_of sample_lib)
       [set_item doc_a ''_date_human'' (JStr ''T''), set_item doc_o ''_date_human'' (JStr ''T''),
        set_item doc_b ''_date_human'' (JStr ''T'')]
     = [Inr (Num (Fin 1000)), Inr (Num (Fin 5000)), Inr (Num (Fin 2000))]"
    by code_simp
  have n: "\<not> sorted_wrt (\<le>) [Fin 1000, Fin 5000, Fin 2000]"
    by (simp add: less_eq_score_def)
  have r': "search_reports sample_lib mixed_store sample_query
     = Inr \<lparr>count = 3, top_ips = [(JStr ''5.6.7.8'', 1), (JStr ''1.2.3.4'', 1)],
            top_urls = [(JStr ''/index'', 1), (JStr ''/admin'', 1)], top_reasons = [],
            results = [set_item doc_b ''_date_human'' (JStr ''T''),
                       set_item doc_o ''_date_human'' (JStr ''T''),
                       set_item doc_a ''_date_human'' (JStr ''T'')]\<rparr>"
    by code_simp
  have n': "\<not> sorted_wrt (\<ge>) [Fin 2000, Fin 5000, Fin 1000]"
    by (simp add: less_eq_score_def)
  from mixed_store_built r d n r' n' show ?thesis by blast
qed

text \<open>
  Claim C9, amended. On a store built by the indexer under prefixes that are
  pairwise equal or independent, the dates of the results of a search under
  one of them never increase along the list with order \<open>newest\<close>, and never
  decrease with order \<open>oldest\<close>.
\<close>

theorem search_order:
  assumes "built L ps st" and "separate ps" and "q_prefix q \<in> set ps"
    and "search_reports L st q = Inr res"
  shows "\<exists>ds. map (date_of L) (results res) = map (\<lambda>d. Inr (Num d)) ds
           \<and> (q_order q = ''newest'' \<longrightarrow> sorted_wrt (\<ge>) ds)
           \<and> (q_order q = ''oldest'' \<longrightarrow> sorted_wrt (\<le>) ds)"
proof -
  from search_dates [OF assms] obtain ds where
    m: "map (date_of L) (results res) = map (\<lambda>d. Inr (Num d)) ds"
    and o: "if q_order q = ''newest'' then sorted_wrt (\<ge>) ds else sorted_wrt (\<le>) ds"
    by blast
  from o have "(q_order q = ''newest'' \<longrightarrow> sorted_wrt (\<ge>) ds)
      \<and> (q_order q = ''oldest'' \<longrightarrow> sorted_wrt (\<le>) ds)"
    by (auto split: if_splits)
  with m show ?thesis by blast
qed

theorem search_order_witness:
  "built sample_lib [''bw_idx'', ''edge''] paired_store \<and> separate [''bw_idx'', ''edge'']
   \<and> q_prefix sample_query \<in> set [''bw_idx'', ''edge'']
   \<and> search_reports sample_lib paired_store sample_query
     = Inr \<lparr>count = 3, top_ips = [(JStr ''1.2.3.4'', 2), (JStr ''5.6.7.8'', 1)],
            top_urls = [(JStr ''/index'', 1), (JStr ''/login'', 1), (JStr ''/admin'', 1)],
            top_reasons = [],
            results = [set_item doc_b ''_date_human'' (JStr ''T''),
                       set_item doc_c ''_date_human'' (JStr ''T''),
                       set_item doc_a ''_date_human'' (JStr ''T'')]\<rparr>
   \<and> map (date_of sample_lib)
       [set_item doc_b ''_date_human'' (JStr ''T''), set_item doc_c ''_date_human'' (JStr ''T''),
        set_item doc_a ''_date_human'' (JStr ''T'')]
     = map (\<lambda>d. Inr (Num d)) [Fin 2000, Fin 1500, Fin 1000]
   \<and> sorted_wrt (\<ge>) [Fin 2000, Fin 1500, Fin 1000]"
proof -
  let ?rs = "[set_item doc_b ''_date_human'' (JStr ''T''), set_item doc_c ''_date_human'' (JStr ''T''),
        set_item doc_a ''_date_human'' (JStr ''T'')]"
  let ?res = "\<lparr>count = 3, top_ips = [(JStr ''1.2.3.4'', 2), (JStr ''5.6.7.8'', 1)],
            top_urls = [(JStr ''/index'', 1), (JStr ''/login'', 1), (JStr ''/admin'', 1)],
            top_reasons = [], results = ?rs\<rparr>"
  have p: "q_prefix sample_query \<in> set [''bw_idx'', ''edge'']"
    by (simp add: sample_query_def)
  have n: "q_order sample_query = ''newest''"
    by (simp add: sample_query_def)
  have r: "search_reports sample_lib paired_store sample_query = Inr ?res"
    by code_simp
  have d: "map (date_of sample_lib) ?rs = map (\<lambda>d. Inr (Num d)) [Fin 2000, Fin 1500, Fin 1000]"
    by code_simp
  have rr: "results ?res = ?rs" by simp
  from search_order [OF paired_store_built separate_pair p r] obtain ds where
    m0: "map (date_of sample_lib) (results ?res) = map (\<lambda>d. Inr (Num d)) ds"
    and o: "q_order sample_query = ''newest'' \<longrightarrow> sorted_wrt (\<ge>) ds" by blast
  from m0 have m: "map (date_of sample_lib) ?rs = map (\<lambda>d. Inr (Num d)) ds" unfolding rr .
  from m d have "map (\<lambda>d. (Inr (Num d) :: py_exception + pyfloat)) ds
      = map (\<lambda>d. Inr (Num d)) [Fin 2000, Fin 1500, Fin 1000]" by simp
  then have "ds = [Fin 2000, Fin 1500, Fin 1000]" by (auto simp: map_eq_Cons_conv)
  with o n have "sorted_wrt (\<ge>) [Fin 2000, Fin 1500, Fin 1000]" by simp
  with paired_store_built separate_pair p r d show ?thesis by simp
qed

section \<open>An order that is not newest\<close>

lemma passes_order: "passes L (q\<lparr>q_order := x\<rparr>) obj = passes L q obj"
  by (simp add: passes_def)

lemma url_ok_order: "url_ok L (q\<lparr>q_order := x\<rparr>) obj = url_ok L q obj"
  by (simp add: url_ok_def)

lemma ua_ok_order: "ua_ok L (q\<lparr>q_order := x\<rparr>) obj = ua_ok L q obj"
  by (simp add: ua_ok_def)

lemma fetch_order: "fetch L st (q\<lparr>q_order := x\<rparr>) ids = fetch L st q ids"
  by (induction ids)
    (auto simp: url_ok_order ua_ok_order split: option.splits json.splits sum.splits)

lemma candidates_of_order: "candidates_of st (q\<lparr>q_order := x\<rparr>) ids = candidates_of st q ids"
  by (simp add: candidates_of_fold supplied_def)

lemma ordered_ids_order:
  "q_order q \<noteq> ''newest'' \<Longrightarrow> x \<noteq> ''newest'' \<Longrightarrow>
     ordered_ids st (q\<lparr>q_order := x\<rparr>) s e = ordered_ids st q s e"
  by (simp add: ordered_ids_def candidates_of_order)

text \<open>
  Claim C10, as stated: with an order other than \<open>newest\<close> the results are in
  ascending order of date. It fails on the store written under \<^verbatim>\<open>bw_idx\<close>
  and \<^verbatim>\<open>bw_idx:req\<close>, with an order that is no order at all.
\<close>

theorem search_order_other_counterexample:
  "built sample_lib [''bw_idx'', ''bw_idx:req''] mixed_store
   \<and> search_reports sample_lib mixed_store (sample_query\<lparr>q_order := ''sideways''\<rparr>)
     = Inr \<lparr>count = 3, top_ips = [(JStr ''1.2.3.4'', 1), (JStr ''5.6.7.8'', 1)],
            top_urls = [(JStr ''/admin'', 1), (JStr ''/index'', 1)], top_reasons = [],
            results = [set_item doc_a ''_date_human'' (JStr ''T''),
                       set_item doc_o ''_date_human'' (JStr ''T''),
                       set_item doc_b ''_date_human'' (JStr ''T'')]\<rparr>
   \<and> date_of sample_lib (set_item doc_o ''_date_human'' (JStr ''T'')) = Inr (Num (Fin 5000))
   \<and> date_of sample_lib (set_item doc_b ''_date_human'' (JStr ''T'')) = Inr (Num (Fin 2000))
   \<and> \<not> Fin 5000 \<le> Fin 2000"
proof -
  have r: "search_reports sample_lib mixed_store (sample_query\<lparr>q_order := ''sideways''\<rparr>)
     = Inr \<lparr>count = 3, top_ips = [(JStr ''1.2.3.4'', 1), (JStr ''5.6.7.8'', 1)],
            top_urls = [(JStr ''/admin'', 1), (JStr ''/index'', 1)], top_reasons = [],
            results = [set_item doc_a ''_date_human'' (JStr ''T''),
                       set_item doc_o ''_date_human'' (JStr ''T''),
                       set_item doc_b ''_date_human'' (JStr ''T'')]\<rparr>"
    by code_simp
  have d: "date_of sample_lib (set_item doc_o ''_date_human'' (JStr ''T'')) = Inr (Num (Fin 5000))"
    "date_of sample_lib (set_item doc_b ''_date_human'' (JStr ''T'')) = Inr (Num (Fin 2000))"
    by code_simp+
  have n: "\<not> Fin 5000 \<le> Fin 2000"
    by (simp add: less_eq_score_def)
  from mixed_store_built r d n show ?thesis by blast
qed

text \<open>
  Claim C10, amended. An order other than the exact string \<open>newest\<close> is
  treated as \<open>oldest\<close>: on every store the request has the same outcome,
  result or exception, as with \<open>oldest\<close>, so the value is never checked and
  never the cause of an error; on a store built by the indexer under prefixes
  that are pairwise equal or independent, the dates of the results of a search
  under one of them never decrease.
\<close>

theorem search_order_other:
  assumes "q_order q \<noteq> ''newest''"
  shows "search_reports L st q = search_reports L st (q\<lparr>q_order := ''oldest''\<rparr>)
         \<and> (\<forall>ps res. built L ps st \<longrightarrow> separate ps \<longrightarrow> q_prefix q \<in> set ps
               \<longrightarrow> search_reports L st q = Inr res \<longrightarrow>
               (\<exists>ds. map (date_of L) (results res) = map (\<lambda>d. Inr (Num d)) ds
                  \<and> sorted_wrt (\<le>) ds))"
proof
  have "''oldest'' \<noteq> ''newest''" by simp
  from ordered_ids_order [OF assms this, of st]
  show "search_reports L st q = search_reports L st (q\<lparr>q_order := ''oldest''\<rparr>)"
    by (auto simp: search_reports_def fetch_order split: sum.splits)
next
  show "\<forall>ps res. built L ps st \<longrightarrow> separate ps \<longrightarrow> q_prefix q \<in> set ps
               \<longrightarrow> search_reports L st q = Inr res \<longrightarrow>
               (\<exists>ds. map (date_of L) (results res) = map (\<lambda>d. Inr (Num d)) ds
                  \<and> sorted_wrt (\<le>) ds)"
  proof (intro allI impI)
    fix ps res
    assume b: "built L ps st" and sep: "separate ps" and pin: "q_prefix q \<in> set ps"
      and r: "search_reports L st q = Inr res"
    from search_dates [OF b sep pin r] assms
    show "\<exists>ds. map (date_of L) (results res) = map (\<lambda>d. Inr (Num d)) ds \<and> sorted_wrt (\<le>) ds"
      by auto
  qed
qed

theorem search_order_other_witness:
  "q_order (sample_query\<lparr>q_order := ''sideways''\<rparr>) \<noteq> ''newest''
   \<and> search_reports sample_lib paired_store (sample_query\<lparr>q_order := ''sideways''\<rparr>)
     = search_reports sample_lib paired_store (sample_query\<lparr>q_order := ''oldest''\<rparr>)
   \<and> search_reports sample_lib paired_store (sample_query\<lparr>q_order := ''sideways''\<rparr>)
     = Inr \<lparr>count = 3, top_ips = [(JStr ''1.2.3.4'', 2), (JStr ''5.6.7.8'', 1)],
            top_urls = [(JStr ''/admin'', 1), (JStr ''/login'', 1), (JStr ''/index'', 1)],
            top_reasons = [],
            results = [set_item doc_a ''_date_human'' (JStr ''T''),
                       set_item doc_c ''_date_human'' (JStr ''T''),
                       set_item doc_b ''_date_human'' (JStr ''T'')]\<rparr>
   \<and> map (date_of sample_lib)
       [set_item doc_a ''_date_human'' (JStr ''T''), set_item doc_c ''_date_human'' (JStr ''T''),
        set_item doc_b ''_date_human'' (JStr ''T'')]
     = map (\<lambda>d. Inr (Num d)) [Fin 1000, Fin 1500, Fin 2000]
   \<and> search_reports sample_lib mixed_store (sample_query\<lparr>q_order := ''sideways''\<rparr>)
     = search_reports sample_lib mixed_store (sample_query\<lparr>q_order := ''oldest''\<rparr>)"
proof -
  let ?q = "sample_query\<lparr>q_order := ''sideways''\<rparr>"
  have n: "q_order ?q \<noteq> ''newest''" by simp
  have r: "search_reports sample_lib paired_store ?q
     = Inr \<lparr>count = 3, top_ips = [(JStr ''1.2.3.4'', 2), (JStr ''5.6.7.8'', 1)],
            top_urls = [(JStr ''/admin'', 1), (JStr ''/login'', 1), (JStr ''/index'', 1)],
            top_reasons = [],
            results = [set_item doc_a ''_date_human'' (JStr ''T''),
                       set_item doc_c ''_date_human'' (JStr ''T''),
                       set_item doc_b ''_date_human'' (JStr ''T'')]\<rparr>"
    by code_simp
  have d: "map (date_of sample_lib)
       [set_item doc_a ''_date_human'' (JStr ''T''), set_item doc_c ''_date_human'' (JStr ''T''),
        set_item doc_b ''_date_human'' (JStr ''T'')]
     = map (\<lambda>d. Inr (Num d)) [Fin 1000, Fin 1500, Fin 2000]"
    by code_simp
  from search_order_other [OF n, of sample_lib paired_store]
  have "search_reports sample_lib paired_store ?q
      = search_reports sample_lib paired_store (?q\<lparr>q_order := ''oldest''\<rparr>)" by blast
  then have a: "search_reports sample_lib paired_store ?q
      = search_reports sample_lib paired_store (sample_query\<lparr>q_order := ''oldest''\<rparr>)" by simp
  from search_order_other [OF n, of sample_lib mixed_store]
  have "search_reports sample_lib mixed_store ?q
      = search_reports sample_lib mixed_store (?q\<lparr>q_order := ''oldest''\<rparr>)" by blast
  then have b: "search_reports sample_lib mixed_store ?q
      = search_reports sample_lib mixed_store (sample_query\<lparr>q_order := ''oldest''\<rparr>)" by simp
  from n r d a b show ?thesis by simp
qed

section \<open>Dedupe markers\<close>

text \<open>
  No command removes a key of type STRING; so after a run that returns, every
  entry that the first pass admits has its dedupe marker in the store.
\<close>

lemma dom_strings_exec_cmd:
  fixes st :: redis
  shows "dom (strings st) \<subseteq> dom (strings (fst (exec_cmd c st)))"
proof (cases c)
  case (ZAdd k m ts)
  then show ?thesis by (cases ts) (auto split: option.splits)
qed (auto simp: set_ttl_def split: option.splits if_splits)

lemma dom_strings_preserves: "preserves (\<lambda>s :: redis. K \<subseteq> dom (strings s)) cs"
  by (rule preserves_each) (use dom_strings_exec_cmd in blast)

lemma dom_strings_execute:
  fixes st :: redis
  shows "dom (strings st) \<subseteq> dom (strings (fst (execute cs st)))"
  using dom_strings_preserves [of "dom (strings st)" cs] by (simp add: preserves_def)

lemma dom_strings_run_chunks:
  "dom (strings (fst s)) \<subseteq> dom (strings (fst (run_chunks L p ttl chunk src start s)))"
proof -
  have "dom (strings (fst s)) \<subseteq> dom (strings (fst (run_chunks L p ttl chunk src start s)))"
  proof (rule run_chunks_invariant [where P = "\<lambda>x :: redis. dom (strings (fst s)) \<subseteq> dom (strings x)"])
    fix x and s0 :: redis assume "dom (strings (fst s)) \<subseteq> dom (strings s0)"
    with dom_strings_exec_cmd [of s0 "seen_cmd L p ttl x"]
    show "dom (strings (fst s)) \<subseteq> dom (strings (fst (exec_cmd (seen_cmd L p ttl x) s0)))" by blast
  next
    fix e
    show "preserves (\<lambda>x :: redis. dom (strings (fst s)) \<subseteq> dom (strings x)) (entry_cmds L p ttl e)"
      by (rule dom_strings_preserves)
  next
    show "dom (strings (fst s)) \<subseteq> dom (strings (fst s))" by simp
  qed
  then show ?thesis .
qed

lemma process_chunk_marked:
  assumes "process_chunk L p ttl items (st, c) = (st', Some c')"
  shows "\<forall>raw \<in> set items. decodable L raw \<and>
           (\<forall>x. parse_entry L raw = Some x \<longrightarrow> seen_key p (py_str L (fst x)) \<in> dom (strings st'))"
proof -
  let ?ps = "List.map_filter (parse_entry L) items"
  obtain st1 rs where ex: "execute (map (seen_cmd L p ttl) ?ps) st = (st1, rs)"
    by (cases "execute (map (seen_cmd L p ttl) ?ps) st") auto
  from execute_marks [OF ex]
  have m1: "\<forall>x \<in> set ?ps. seen_key p (py_str L (fst x)) \<in> dom (strings st1)" by blast
  from process_chunk_Some [OF assms] ex
  have st': "st' = fst (execute (commits L p ttl items st) st1)"
    and dec: "\<forall>raw \<in> set items. decodable L raw"
    by (simp_all add: marks_def)
  from dom_strings_execute [of st1 "commits L p ttl items st"] st'
  have "dom (strings st1) \<subseteq> dom (strings st')" by simp
  with m1 have m2: "\<forall>x \<in> set ?ps. seen_key p (py_str L (fst x)) \<in> dom (strings st')" by blast
  show ?thesis
  proof (intro ballI conjI allI impI)
    fix raw assume "raw \<in> set items"
    with dec show "decodable L raw" by blast
  next
    fix raw x assume "raw \<in> set items" and "parse_entry L raw = Some x"
    then have "x \<in> set ?ps" unfolding set_map_filter by blast
    with m2 show "seen_key p (py_str L (fst x)) \<in> dom (strings st')" by blast
  qed
qed

lemma lrange_chunk:
  assumes "start < length src" and "0 < chunk"
  shows "lrange src start (min (start + chunk - 1) (length src - 1)) = take chunk (drop start src)"
proof (cases "start + chunk - 1 \<le> length src - 1")
  case True
  with assms show ?thesis by (simp add: lrange_def min_def)
next
  case False
  with assms have "min (start + chunk - 1) (length src - 1) + 1 - start = length (drop start src)"
    and "length (drop start src) \<le> chunk"
    by (simp_all add: min_def)
  then show ?thesis by (simp add: lrange_def)
qed

lemma set_drop_chunk:
  "set (drop start src) = set (take chunk (drop start src)) \<union> set (drop (start + chunk) src)"
proof -
  have "set (take chunk (drop start src) @ drop chunk (drop start src)) = set (drop start src)"
    by (simp only: append_take_drop_id)
  then have "set (drop start src) = set (take chunk (drop start src)) \<union> set (drop chunk (drop start src))"
    by (simp only: set_append)
  moreover have "drop chunk (drop start src) = drop (start + chunk) src"
    by (simp add: add.commute)
  ultimately show ?thesis by simp
qed

lemma run_chunks_marked:
  assumes "run_chunks L p ttl chunk src start s = (st', Some c')" and "0 < chunk"
  shows "\<forall>raw \<in> set (drop start src). decodable L raw \<and>
           (\<forall>x. parse_entry L raw = Some x \<longrightarrow> seen_key p (py_str L (fst x)) \<in> dom (strings st'))"
  using assms
proof (induction L p ttl chunk src start s rule: run_chunks.induct)
  case (1 L p ttl chunk src start s)
  note run = "1.prems"(1) and pos = "1.prems"(2)
  show ?case
  proof (cases "length src \<le> start")
    case True
    then show ?thesis by simp
  next
    case False
    with pos have c: "\<not> (chunk = 0 \<or> length src \<le> start)" by simp
    let ?items = "lrange src start (min (start + chunk - 1) (length src - 1))"
    from False have lt: "start < length src" by simp
    from lt pos have items: "?items = take chunk (drop start src)"
      by (rule lrange_chunk)
    with lt pos have ne: "?items \<noteq> []" by simp
    obtain st1 o1 where pc0: "process_chunk L p ttl ?items s = (st1, o1)"
      by (cases "process_chunk L p ttl ?items s")
    from run pc0 obtain c1 where o1: "o1 = Some c1"
      by (cases o1) (auto simp: run_chunks_step [OF c ne])
    from pc0 o1 have pc: "(st1, Some c1) = process_chunk L p ttl ?items s" by simp
    from run pc0 o1 have rest: "run_chunks L p ttl chunk src (start + chunk) (st1, c1) = (st', Some c')"
      by (simp add: run_chunks_step [OF c ne])
    from pc have "process_chunk L p ttl ?items (fst s, snd s) = (st1, Some c1)" by simp
    from process_chunk_marked [OF this]
    have m1: "\<forall>raw \<in> set ?items. decodable L raw \<and>
           (\<forall>x. parse_entry L raw = Some x \<longrightarrow> seen_key p (py_str L (fst x)) \<in> dom (strings st1))" .
    from dom_strings_run_chunks [of "(st1, c1)" L p ttl chunk src "start + chunk"] rest
    have "dom (strings st1) \<subseteq> dom (strings st')" by simp
    with m1 have m1': "\<forall>raw \<in> set (take chunk (drop start src)). decodable L raw \<and>
           (\<forall>x. parse_entry L raw = Some x \<longrightarrow> seen_key p (py_str L (fst x)) \<in> dom (strings st'))"
      unfolding items by blast
    from "1.IH" [OF c refl ne pc refl rest pos]
    have m2: "\<forall>raw \<in> set (drop (start + chunk) src). decodable L raw \<and>
           (\<forall>x. parse_entry L raw = Some x \<longrightarrow> seen_key p (py_str L (fst x)) \<in> dom (strings st'))" .
    from m1' m2 show ?thesis
      by (subst set_drop_chunk [of start src chunk]) blast
  qed
qed

section \<open>A chunk whose entries are all marked changes nothing\<close>

lemma execute_marks_noop:
  "\<forall>x \<in> set ps. seen_key p (py_str L (fst x)) \<in> dom (strings st) \<Longrightarrow>
     execute (map (seen_cmd L p ttl) ps) st = (st, replicate (length ps) False)"
  by (induction ps) (auto simp: seen_cmd_def Let_def)

lemma commit_not_new:
  "\<forall>x \<in> set xs. \<not> snd x \<Longrightarrow> commit L p ttl xs acc = Some acc"
proof (induction xs)
  case Nil
  then show ?case by simp
next
  case (Cons x xs)
  obtain rid obj raw r where x: "x = ((rid, obj, raw), r)"
    by (metis prod.collapse)
  obtain cs c where acc: "acc = (cs, c)" by (cases acc)
  from Cons show ?case by (simp add: x acc)
qed

lemma process_chunk_noop:
  assumes dec: "\<forall>raw \<in> set items. decodable L raw"
    and mk: "\<forall>raw \<in> set items. \<forall>x. parse_entry L raw = Some x \<longrightarrow>
               seen_key p (py_str L (fst x)) \<in> dom (strings st)"
  shows "\<exists>c'. process_chunk L p ttl items (st, c) = (st, Some c')
           \<and> new_count c' = new_count c \<and> no_date c' = no_date c"
proof -
  from admit_total [OF dec] obtain parsed p1 c1 where
    a: "admit L p ttl items ([], [], c) = Some (parsed, p1, c1)"
    using prod_cases3 by metis
  from admit_Some [OF a] have
    parsed: "parsed = List.map_filter (parse_entry L) items"
    and p1: "p1 = map (seen_cmd L p ttl) parsed"
    and c1: "new_count c1 = new_count c" "no_date c1 = no_date c"
    by simp_all
  have "\<forall>x \<in> set parsed. seen_key p (py_str L (fst x)) \<in> dom (strings st)"
  proof
    fix x assume "x \<in> set parsed"
    then obtain raw where "raw \<in> set items" "parse_entry L raw = Some x"
      unfolding parsed set_map_filter by blast
    with mk show "seen_key p (py_str L (fst x)) \<in> dom (strings st)" by blast
  qed
  from execute_marks_noop [OF this]
  have e: "execute p1 st = (st, replicate (length parsed) False)" by (simp add: p1)
  have e': "(if parsed \<noteq> [] then execute p1 st else (st, [])) = (st, replicate (length parsed) False)"
    using e by (cases "parsed = []") simp_all
  have "\<forall>x \<in> set (zip parsed (replicate (length parsed) False)). \<not> snd x"
    by (auto dest: set_zip_rightD)
  from commit_not_new [OF this]
  have cm: "commit L p ttl (zip parsed (replicate (length parsed) False)) ([], c1) = Some ([], c1)" .
  have "process_chunk L p ttl items (st, c) =
      (if new_count c1 \<noteq> 0 then (fst (execute [] st), if raises [] then None else Some c1)
       else (st, Some c1))"
    unfolding process_chunk_unfold [OF a, of st] e' by (simp only: prod.case cm option.case)
  then have "process_chunk L p ttl items (st, c) = (st, Some c1)" by (simp add: raises_def)
  with c1 show ?thesis by blast
qed

lemma run_chunks_noop:
  assumes "\<forall>raw \<in> set (drop start src). decodable L raw \<and>
           (\<forall>x. parse_entry L raw = Some x \<longrightarrow> seen_key p (py_str L (fst x)) \<in> dom (strings (fst s)))"
  shows "\<exists>c'. run_chunks L p ttl chunk src start s = (fst s, Some c')
           \<and> new_count c' = new_count (snd s) \<and> no_date c' = no_date (snd s)"
  using assms
proof (induction L p ttl chunk src start s rule: run_chunks.induct)
  case (1 L p ttl chunk src start s)
  note mk = "1.prems"
  show ?case
  proof (cases "chunk = 0 \<or> length src \<le> start")
    case True
    then have "run_chunks L p ttl chunk src start s = (fst s, Some (snd s))"
      by (intro run_chunks_stop) blast
    then show ?thesis by simp
  next
    case False
    then have pos: "0 < chunk" and lt: "start < length src" by simp_all
    let ?items = "lrange src start (min (start + chunk - 1) (length src - 1))"
    from lt pos have items: "?items = take chunk (drop start src)"
      by (rule lrange_chunk)
    with lt pos have ne: "?items \<noteq> []" by simp
    have sub: "set ?items \<subseteq> set (drop start src)"
      unfolding items by (rule set_take_subset)
    from mk sub have "\<forall>raw \<in> set ?items. decodable L raw"
      and "\<forall>raw \<in> set ?items. \<forall>x. parse_entry L raw = Some x \<longrightarrow>
               seen_key p (py_str L (fst x)) \<in> dom (strings (fst s))" by blast+
    from process_chunk_noop [OF this, of ttl "snd s"] obtain c1 where
      pc: "process_chunk L p ttl ?items s = (fst s, Some c1)"
      and c1: "new_count c1 = new_count (snd s)" "no_date c1 = no_date (snd s)" by auto
    have "set (drop (start + chunk) src) \<subseteq> set (drop start src)"
      using set_drop_chunk [of start src chunk] by blast
    with mk have "\<forall>raw \<in> set (drop (start + chunk) src). decodable L raw \<and>
           (\<forall>x. parse_entry L raw = Some x \<longrightarrow>
              seen_key p (py_str L (fst x)) \<in> dom (strings (fst s)))" by blast
    then have mk': "\<forall>raw \<in> set (drop (start + chunk) src). decodable L raw \<and>
           (\<forall>x. parse_entry L raw = Some x \<longrightarrow>
              seen_key p (py_str L (fst x)) \<in> dom (strings (fst (fst s, c1))))"
      by (simp only: fst_conv)
    from "1.IH" [OF False refl ne pc [symmetric] refl mk'] obtain c' where
      r: "run_chunks L p ttl chunk src (start + chunk) (fst s, c1) = (fst s, Some c')"
      and c': "new_count c' = new_count c1" "no_date c' = no_date c1" by auto
    from pc r have "run_chunks L p ttl chunk src start s = (fst s, Some c')"
      by (simp add: run_chunks_step [OF False ne])
    with c' c1 show ?thesis by auto
  qed
qed

section \<open>Running the indexer twice\<close>

lemma main_positive_chunk:
  "0 < chunk \<Longrightarrow>
     main L src p ttl_days chunk st =
       run_chunks L p (ttl_of_days ttl_days) (nat chunk) src 0
         (st, \<lparr>new_count = 0, bad_json = 0, no_id = 0, no_date = 0\<rparr>)"
  by (simp add: main_def ttl_of_days_def Let_def)

lemma main_other_chunk:
  "chunk \<le> 0 \<Longrightarrow>
     main L src p ttl_days chunk st =
       (if chunk = 0 then (st, None)
        else (st, Some \<lparr>new_count = 0, bad_json = 0, no_id = 0, no_date = 0\<rparr>))"
  by (simp add: main_def Let_def)

text \<open>
  Claim C2. When a run of the indexer over a source returns, a second run over
  the same source with the same arguments finds every dedupe marker set: it
  returns with \<open>new_count = 0\<close> and leaves the store, with every key, value
  and time-to-live, exactly as the first run left it (no key expiring between
  the two runs).
\<close>

theorem rerun_idempotent:
  assumes "main L src p ttl_days chunk st = (st1, Some c1)"
  shows "\<exists>c2. main L src p ttl_days chunk st1 = (st1, Some c2)
           \<and> new_count c2 = 0 \<and> no_date c2 = 0"
proof (cases "0 < chunk")
  case False
  with assms have "chunk < 0" and "st1 = st"
    by (auto simp: main_other_chunk split: if_splits)
  then show ?thesis by (simp add: main_other_chunk)
next
  case True
  let ?c0 = "\<lparr>new_count = 0, bad_json = 0, no_id = 0, no_date = 0\<rparr>"
  from True assms have r: "run_chunks L p (ttl_of_days ttl_days) (nat chunk) src 0 (st, ?c0) = (st1, Some c1)"
    by (simp add: main_positive_chunk)
  from True have pos: "0 < nat chunk" by simp
  from run_chunks_marked [OF r pos]
  have "\<forall>raw \<in> set (drop 0 src). decodable L raw \<and>
           (\<forall>x. parse_entry L raw = Some x \<longrightarrow>
              seen_key p (py_str L (fst x)) \<in> dom (strings (fst (st1, ?c0))))"
    by simp
  from run_chunks_noop [OF this, of "ttl_of_days ttl_days" "nat chunk"] obtain c2 where
    "run_chunks L p (ttl_of_days ttl_days) (nat chunk) src 0 (st1, ?c0) = (st1, Some c2)"
    and "new_count c2 = 0" and "no_date c2 = 0"
    by auto
  with True show ?thesis by (simp add: main_positive_chunk)
qed

theorem rerun_idempotent_witness:
  "new_count (the (snd (main sample_lib [''A'', ''B'', ''C''] ''bw_idx'' 0 500 empty_redis))) = 3
   \<and> fst (main sample_lib [''A'', ''B'', ''C''] ''bw_idx'' 0 500 sample_store) = sample_store
   \<and> new_count (the (snd (main sample_lib [''A'', ''B'', ''C''] ''bw_idx'' 0 500 sample_store))) = 0"
proof -
  have n: "new_count (the (snd (main sample_lib [''A'', ''B'', ''C''] ''bw_idx'' 0 500 empty_redis))) = 3"
    by code_simp
  have "snd (main sample_lib [''A'', ''B'', ''C''] ''bw_idx'' 0 500 empty_redis) \<noteq> None"
    by code_simp
  then obtain c where "snd (main sample_lib [''A'', ''B'', ''C''] ''bw_idx'' 0 500 empty_redis) = Some c"
    by auto
  then have m: "main sample_lib [''A'', ''B'', ''C''] ''bw_idx'' 0 500 empty_redis = (sample_store, Some c)"
    by (simp add: sample_store_def prod_eq_iff)
  from rerun_idempotent [OF m] obtain c2 where
    "main sample_lib [''A'', ''B'', ''C''] ''bw_idx'' 0 500 sample_store = (sample_store, Some c2)"
    and "new_count c2 = 0"
    by blast
  with n show ?thesis by simp
qed

end
